theory Spec2Isabelle
  imports Complex_Main
begin

section \<open>Cell model (types.ts)\<close>

text \<open>
  \<^verbatim>\<open>interface CellData { age: number; wealth: number }\<close>,
  \<^verbatim>\<open>type WealthRules = number[]\<close>. The specification fixes ages, wealth and rule
  entries to integers, so the fields are \<^typ>\<open>int\<close>; addition on them is the
  addition of JavaScript numbers as long as the values stay in the safe integer range.
  A grid is an array of rows, each row an array of cells.
\<close>

record CellData =
  age :: int
  wealth :: int

type_synonym grid = "CellData list list"

type_synonym WealthRules = "int list"

definition DEFAULT_STARTING_WEALTH :: int where
  "DEFAULT_STARTING_WEALTH = 10"

text \<open>
  What a call can end in besides a value: the two exceptions the functions of
  gameLogic.ts can raise (reading a property of \<^verbatim>\<open>undefined\<close>, an invalid array
  length), and \<open>OutsideModel\<close> for the results that a list of records cannot
  represent (a row with holes, a cell object without its fields). The last one is not an
  exception of the program: the model stops there instead of inventing a value.
\<close>

datatype failure = TypeError | RangeError | OutsideModel

text \<open>\<^verbatim>\<open>xs[i]\<close> is \<^verbatim>\<open>undefined\<close> outside \<open>0 .. length - 1\<close>.\<close>

definition js_index :: "'a list \<Rightarrow> int \<Rightarrow> 'a option" where
  "js_index xs i = (if 0 \<le> i \<and> i < int (length xs) then Some (xs ! nat i) else None)"

text \<open>\<^verbatim>\<open>a % b\<close> truncates towards zero: the result has the sign of \<open>a\<close>.\<close>

definition js_rem :: "int \<Rightarrow> int \<Rightarrow> int" where
  "js_rem a b = sgn a * (\<bar>a\<bar> mod \<bar>b\<bar>)"

text \<open>\<^verbatim>\<open>Array(n)\<close> raises a RangeError unless \<open>n\<close> is an integer in \<open>0 .. 2^32 - 1\<close>.\<close>

definition array_length_ok :: "int \<Rightarrow> bool" where
  "array_length_ok n \<longleftrightarrow> 0 \<le> n \<and> n \<le> 4294967295"

text \<open>
  \<^verbatim>\<open>Number.isSafeInteger\<close>: the integers up to \<open>2^53 - 1\<close> in absolute value. A JavaScript
  number is a double: every integer up to \<open>2^53\<close> in absolute value is one, and the sum of
  two of them is the integer sum whenever that sum is again within \<open>2^53\<close>; beyond it the
  double sum is rounded. So \<open>a + b\<close> on \<^typ>\<open>int\<close> is the program's \<^verbatim>\<open>a + b\<close> when
  \<open>a\<close>, \<open>b\<close> and the sum are safe integers, and \<open>a + 1\<close> is the program's
  \<^verbatim>\<open>a + 1\<close> when \<open>a\<close> is one (the sum is then at most \<open>2^53\<close>).
\<close>

definition safe_integer :: "int \<Rightarrow> bool" where
  "safe_integer x \<longleftrightarrow> - 9007199254740991 \<le> x \<and> x \<le> 9007199254740991"

section \<open>Constructors (gameLogic.ts)\<close>

definition defaultWealthRules :: WealthRules where
  "defaultWealthRules = [-1, -3, -1, 1, -1, -2, -3]"

definition createEmptyCell :: CellData where
  "createEmptyCell = \<lparr>age = 0, wealth = 0\<rparr>"

definition createAliveCell :: "int \<Rightarrow> CellData" where
  "createAliveCell startingWealth = \<lparr>age = 1, wealth = startingWealth\<rparr>"

text \<open>
  \<^verbatim>\<open>Array(height).fill(null).map(() => Array(width).fill(null).map(() => createEmptyCell()))\<close>:
  the outer array is made first; the inner \<^verbatim>\<open>Array(width)\<close> runs once per row, so
  a bad width goes unnoticed when there is no row.
\<close>

definition createEmptyGrid :: "int \<Rightarrow> int \<Rightarrow> failure + grid" where
  "createEmptyGrid width height =
     (if \<not> array_length_ok height then Inl RangeError
      else if height = 0 then Inr []
      else if \<not> array_length_ok width then Inl RangeError
      else Inr (replicate (nat height) (replicate (nat width) createEmptyCell)))"

section \<open>Hex topology\<close>

definition getHexNeighborOffsets :: "bool \<Rightarrow> (int \<times> int) list" where
  "getHexNeighborOffsets isOddRow =
     (if isOddRow
      then [(-1, 0), (-1, 1), (0, -1), (0, 1), (1, 0), (1, 1)]
      else [(-1, -1), (-1, 0), (0, -1), (0, 1), (1, -1), (1, 0)])"

text \<open>
  The \<^verbatim>\<open>for (const [dr, dc] of neighbors)\<close> loop of getNeighborCount, with the
  running \<open>count\<close>. \<^verbatim>\<open>grid[newRow]\<close> exists once \<open>newRow\<close> has passed the bounds
  test; \<^verbatim>\<open>grid[newRow][newCol]\<close> need not (a row shorter than row 0), and reading
  \<^verbatim>\<open>.age\<close> of \<^verbatim>\<open>undefined\<close> raises.
\<close>

fun count_loop :: "grid \<Rightarrow> int \<Rightarrow> int \<Rightarrow> int \<Rightarrow> int \<Rightarrow> (int \<times> int) list \<Rightarrow> int \<Rightarrow> failure + int" where
  "count_loop grid height width row col [] count = Inr count"
| "count_loop grid height width row col ((dr, dc) # rest) count =
     (let newRow = row + dr; newCol = col + dc in
      if 0 \<le> newRow \<and> newRow < height \<and> 0 \<le> newCol \<and> newCol < width then
        (case js_index (grid ! nat newRow) newCol of
           None \<Rightarrow> Inl TypeError
         | Some cell \<Rightarrow>
             count_loop grid height width row col rest
               (if age cell > 0 then count + 1 else count))
      else count_loop grid height width row col rest count)"

definition getNeighborCount :: "grid \<Rightarrow> int \<Rightarrow> int \<Rightarrow> failure + int" where
  "getNeighborCount grid row col =
     (case grid of
        [] \<Rightarrow> Inl TypeError
      | row0 # _ \<Rightarrow>
          (let height = int (length grid);
               width = int (length row0);
               isOddRow = (js_rem row 2 = 1);
               neighbors = getHexNeighborOffsets isOddRow
           in count_loop grid height width row col neighbors 0))"

section \<open>Transition engine\<close>

text \<open>
  The two nested counting loops that computeNextGeneration and resizeGrid share:
  \<^verbatim>\<open>for (let col = 0; col < limit; col++) newGrid[row][col] = body(col)\<close> and, around it,
  \<^verbatim>\<open>for (let row = 0; row < rowLimit; row++)\<close>. The grid under construction is
  passed along and returned; an exception in the body ends the loops. Both callers write
  inside the grid they made with createEmptyGrid, where assignment replaces an element.
\<close>

function col_loop :: "(nat \<Rightarrow> failure + CellData) \<Rightarrow> nat \<Rightarrow> nat \<Rightarrow> nat \<Rightarrow> grid \<Rightarrow> failure + grid" where
  "col_loop body limit row col newGrid =
     (if col < limit then
        (case body col of
           Inl e \<Rightarrow> Inl e
         | Inr cell \<Rightarrow>
             col_loop body limit row (Suc col) (newGrid[row := (newGrid ! row)[col := cell]]))
      else Inr newGrid)"
  by pat_completeness auto
termination
  by (relation "measure (\<lambda>(body, limit, row, col, newGrid). limit - col)") auto

declare col_loop.simps [simp del]

function row_loop :: "(nat \<Rightarrow> nat \<Rightarrow> failure + CellData) \<Rightarrow> nat \<Rightarrow> nat \<Rightarrow> nat \<Rightarrow> grid \<Rightarrow> failure + grid" where
  "row_loop body rowLimit colLimit row newGrid =
     (if row < rowLimit then
        (case col_loop (body row) colLimit row 0 newGrid of
           Inl e \<Rightarrow> Inl e
         | Inr filled \<Rightarrow> row_loop body rowLimit colLimit (Suc row) filled)
      else Inr newGrid)"
  by pat_completeness auto
termination
  by (relation "measure (\<lambda>(body, rowLimit, colLimit, row, newGrid). rowLimit - row)") auto

declare row_loop.simps [simp del]

text \<open>
  The body of the inner loop of computeNextGeneration: the cell written to
  \<^verbatim>\<open>newGrid[row][col]\<close>. \<^verbatim>\<open>grid[row][col]\<close> is \<^verbatim>\<open>undefined\<close> when the row is
  shorter than row 0, and \<^verbatim>\<open>currentCell.age\<close> raises then.
  \<^verbatim>\<open>wealthRules[neighborCount] ?? 0\<close> is 0 where the table has no entry.
  The two additions are written on integers: they are the program's additions of doubles
  for an age, a wealth, a rule entry and a new wealth that are safe integers, and the
  statements about the value of a next cell are made for such numbers.
\<close>

definition nextCell :: "grid \<Rightarrow> WealthRules \<Rightarrow> int \<Rightarrow> nat \<Rightarrow> nat \<Rightarrow> failure + CellData" where
  "nextCell grid wealthRules startingWealth row col =
     (case getNeighborCount grid (int row) (int col) of
        Inl e \<Rightarrow> Inl e
      | Inr neighborCount \<Rightarrow>
          (case js_index (grid ! row) (int col) of
             None \<Rightarrow> Inl TypeError
           | Some currentCell \<Rightarrow>
               (let isCurrentlyAlive = (age currentCell > 0);
                    wealthChange = (case js_index wealthRules neighborCount of
                                      None \<Rightarrow> 0 | Some d \<Rightarrow> d)
                in if isCurrentlyAlive then
                     (let newWealth = wealth currentCell + wealthChange
                      in if newWealth > 0
                         then Inr \<lparr>age = age currentCell + 1, wealth = newWealth\<rparr>
                         else Inr createEmptyCell)
                   else if wealthChange > 0
                     then Inr \<lparr>age = 1, wealth = startingWealth\<rparr>
                     else Inr createEmptyCell)))"

definition computeNextGeneration :: "grid \<Rightarrow> WealthRules \<Rightarrow> int \<Rightarrow> failure + grid" where
  "computeNextGeneration grid wealthRules startingWealth =
     (case grid of
        [] \<Rightarrow> Inl TypeError
      | row0 # _ \<Rightarrow>
          (let height = length grid; width = length row0 in
           case createEmptyGrid (int width) (int height) of
             Inl e \<Rightarrow> Inl e
           | Inr newGrid \<Rightarrow>
               row_loop (nextCell grid wealthRules startingWealth) height width 0 newGrid))"

text \<open>
  The driver (the \<^verbatim>\<open>step\<close> callback of useGameOfLife.ts) replaces its grid by the next
  generation at every tick and looks for a live cell in it:
  \<^verbatim>\<open>newCells.some(row => row.some(cell => cell.age > 0))\<close>.
\<close>

fun generations :: "nat \<Rightarrow> grid \<Rightarrow> WealthRules \<Rightarrow> int \<Rightarrow> failure + grid" where
  "generations 0 grid wealthRules startingWealth = Inr grid"
| "generations (Suc n) grid wealthRules startingWealth =
     (case computeNextGeneration grid wealthRules startingWealth of
        Inl e \<Rightarrow> Inl e
      | Inr newCells \<Rightarrow> generations n newCells wealthRules startingWealth)"

definition hasAliveCells :: "grid \<Rightarrow> bool" where
  "hasAliveCells newCells = list_ex (\<lambda>row. list_ex (\<lambda>cell. age cell > 0) row) newCells"

section \<open>Grid editing operations\<close>

text \<open>
  toggleCell and setCell are specified up to the identity of the array they return, so
  they run on a store of grid objects: a reference is an index into the store, and a new
  array is allocated at its end. Rows and cells are kept by value: every grid these
  functions build is a deep copy (\<^verbatim>\<open>grid.map(r => r.map(c => ({ ...c })))\<close>), and no
  function writes into its argument. A reference handed to a function is one of the
  store (\<open>grid < length h\<close>).
\<close>

type_synonym heap = "grid list"

definition alloc :: "heap \<Rightarrow> grid \<Rightarrow> heap \<times> nat" where
  "alloc h g = (h @ [g], length h)"

definition copy_cell :: "CellData \<Rightarrow> CellData" where
  "copy_cell c = \<lparr>age = age c, wealth = wealth c\<rparr>"

definition copy_grid :: "grid \<Rightarrow> grid" where
  "copy_grid g = map (\<lambda>r. map (\<lambda>c. copy_cell c) r) g"

text \<open>
  \<^verbatim>\<open>newGrid[row][col]\<close> raises when \<^verbatim>\<open>newGrid[row]\<close> is \<^verbatim>\<open>undefined\<close>, and
  \<^verbatim>\<open>currentCell.age\<close> when the column is out of range. The copy is allocated before the
  cell is replaced in it; an exception discards it, so the model allocates the finished
  array.
\<close>

definition toggleCell :: "heap \<Rightarrow> nat \<Rightarrow> int \<Rightarrow> int \<Rightarrow> int \<Rightarrow> failure + heap \<times> nat" where
  "toggleCell h grid row col startingWealth =
     (let newGrid = copy_grid (h ! grid) in
      case js_index newGrid row of
        None \<Rightarrow> Inl TypeError
      | Some r \<Rightarrow>
          (case js_index r col of
             None \<Rightarrow> Inl TypeError
           | Some currentCell \<Rightarrow>
               Inr (alloc h (newGrid[nat row := r[nat col :=
                      (if age currentCell > 0 then createEmptyCell
                       else createAliveCell startingWealth)]]))))"

text \<open>
  \<^verbatim>\<open>grid[row]?.[col]?.age > 0\<close> is false outside the grid (\<^verbatim>\<open>undefined > 0\<close>).
  After the early return, the assignment raises when the row does not exist; with an
  existing row and a column outside it, JavaScript would extend the row (or add a
  property), which is outside the model.
\<close>

definition setCell :: "heap \<Rightarrow> nat \<Rightarrow> int \<Rightarrow> int \<Rightarrow> bool \<Rightarrow> int \<Rightarrow> failure + heap \<times> nat" where
  "setCell h grid row col value startingWealth =
     (let currentAlive =
            (case js_index (h ! grid) row of
               None \<Rightarrow> False
             | Some r \<Rightarrow> (case js_index r col of None \<Rightarrow> False | Some c \<Rightarrow> age c > 0))
      in if currentAlive = value then Inr (h, grid)
         else
           (let newGrid = copy_grid (h ! grid) in
            case js_index newGrid row of
              None \<Rightarrow> Inl TypeError
            | Some r \<Rightarrow>
                if 0 \<le> col \<and> col < int (length r)
                then Inr (alloc h (newGrid[nat row := r[nat col :=
                            (if value then createAliveCell startingWealth
                             else createEmptyCell)]]))
                else Inl OutsideModel))"

text \<open>
  resizeGrid copies the overlap into a fresh empty grid. \<^verbatim>\<open>{ ...grid[row][col] }\<close> of a
  missing cell (a row shorter than row 0) is an object without fields, which is outside
  the model. The loop bounds are \<^verbatim>\<open>Math.min\<close> of an array length and an argument;
  a counter from 0 is below such a bound exactly when it is below its \<open>nat\<close>.
\<close>

definition resizeGrid :: "grid \<Rightarrow> int \<Rightarrow> int \<Rightarrow> failure + grid" where
  "resizeGrid grid newWidth newHeight =
     (case createEmptyGrid newWidth newHeight of
        Inl e \<Rightarrow> Inl e
      | Inr newGrid \<Rightarrow>
          (let oldHeight = int (length grid);
               oldWidth = (case js_index grid 0 of None \<Rightarrow> 0 | Some row0 \<Rightarrow> int (length row0))
           in row_loop
                (\<lambda>row col. case js_index (grid ! row) (int col) of
                              None \<Rightarrow> Inl OutsideModel
                            | Some c \<Rightarrow> Inr (copy_cell c))
                (nat (min oldHeight newHeight)) (nat (min oldWidth newWidth)) 0 newGrid))"

text \<open>
  The random source is a procedure with a state of its own (\<^verbatim>\<open>Math.random\<close>, or a
  closure over a counter in the tests): a call takes the state and returns the drawn
  value with the next state. \<^verbatim>\<open>map\<close> visits the indices in order, so the draws are
  made row by row, left to right. The comparison of two JavaScript numbers is the
  comparison of the reals they stand for.
\<close>

fun random_row :: "('s \<Rightarrow> real \<times> 's) \<Rightarrow> real \<Rightarrow> int \<Rightarrow> nat \<Rightarrow> 's \<Rightarrow> CellData list \<times> 's" where
  "random_row randomFn density startingWealth 0 s = ([], s)"
| "random_row randomFn density startingWealth (Suc n) s =
     (let (x, s1) = randomFn s;
          cell = (if x < density then createAliveCell startingWealth else createEmptyCell);
          (rest, s2) = random_row randomFn density startingWealth n s1
      in (cell # rest, s2))"

fun random_rows :: "('s \<Rightarrow> real \<times> 's) \<Rightarrow> real \<Rightarrow> int \<Rightarrow> nat \<Rightarrow> nat \<Rightarrow> 's \<Rightarrow> grid \<times> 's" where
  "random_rows randomFn density startingWealth width 0 s = ([], s)"
| "random_rows randomFn density startingWealth width (Suc n) s =
     (let (r, s1) = random_row randomFn density startingWealth width s;
          (rest, s2) = random_rows randomFn density startingWealth width n s1
      in (r # rest, s2))"

definition randomizeGrid ::
    "int \<Rightarrow> int \<Rightarrow> real \<Rightarrow> int \<Rightarrow> ('s \<Rightarrow> real \<times> 's) \<Rightarrow> 's \<Rightarrow> failure + grid \<times> 's" where
  "randomizeGrid width height density startingWealth randomFn s =
     (if \<not> array_length_ok height then Inl RangeError
      else if height = 0 then Inr ([], s)
      else if \<not> array_length_ok width then Inl RangeError
      else Inr (random_rows randomFn density startingWealth (nat width) (nat height) s))"

section \<open>Well-formed grids\<close>

text \<open>
  The width of a grid is the length of its first row (\<^verbatim>\<open>grid[0]?.length ?? 0\<close> in
  resizeGrid). A grid of the specification is rectangular, and, being made of
  JavaScript arrays, no longer than \<open>2^32 - 1\<close> in either direction.
\<close>

definition grid_width :: "grid \<Rightarrow> nat" where
  "grid_width g = (case g of [] \<Rightarrow> 0 | row0 # _ \<Rightarrow> length row0)"

definition is_grid :: "grid \<Rightarrow> bool" where
  "is_grid g \<longleftrightarrow>
     array_length_ok (int (length g)) \<and> array_length_ok (int (grid_width g)) \<and>
     list_all (\<lambda>r. length r = grid_width g) g"

definition in_bounds :: "grid \<Rightarrow> int \<Rightarrow> int \<Rightarrow> bool" where
  "in_bounds g row col \<longleftrightarrow>
     0 \<le> row \<and> row < int (length g) \<and> 0 \<le> col \<and> col < int (grid_width g)"

text \<open>The cell at a position, for stating results: \<^verbatim>\<open>g[row][col]\<close> in bounds.\<close>

definition cell_at :: "grid \<Rightarrow> int \<Rightarrow> int \<Rightarrow> CellData" where
  "cell_at g row col = g ! nat row ! nat col"

text \<open>The cell invariant of the data model, on a cell and on every cell of a grid.\<close>

definition cell_inv :: "CellData \<Rightarrow> bool" where
  "cell_inv c \<longleftrightarrow> 0 \<le> age c \<and> (age c = 0 \<longrightarrow> wealth c = 0)"

definition grid_inv :: "grid \<Rightarrow> bool" where
  "grid_inv g = list_all (\<lambda>r. list_all cell_inv r) g"

text \<open>
  The sequence of values a random source yields from a state, and the state it is left
  in: \<open>nth_draw randomFn s k\<close> is the value of call number \<open>k\<close> (from 0).
\<close>

fun nth_draw :: "('s \<Rightarrow> real \<times> 's) \<Rightarrow> 's \<Rightarrow> nat \<Rightarrow> real" where
  "nth_draw randomFn s 0 = fst (randomFn s)"
| "nth_draw randomFn s (Suc k) = nth_draw randomFn (snd (randomFn s)) k"

fun after_draws :: "('s \<Rightarrow> real \<times> 's) \<Rightarrow> 's \<Rightarrow> nat \<Rightarrow> 's" where
  "after_draws randomFn s 0 = s"
| "after_draws randomFn s (Suc k) = after_draws randomFn (snd (randomFn s)) k"

text \<open>
  An offset whose target from \<open>(row, col)\<close> lies in the grid and holds a live cell.
\<close>

definition live_target :: "grid \<Rightarrow> int \<Rightarrow> int \<Rightarrow> int \<times> int \<Rightarrow> bool" where
  "live_target g row col d \<longleftrightarrow>
     in_bounds g (row + fst d) (col + snd d) \<and> age (cell_at g (row + fst d) (col + snd d)) > 0"

text \<open>
  The next generation in closed form, for stating what the loops compute: the number of
  live targets around a position, the rule entry for a count, the next state of one cell,
  and the grid of the next states.
\<close>

definition live_neighbors :: "grid \<Rightarrow> int \<Rightarrow> int \<Rightarrow> int" where
  "live_neighbors g row col =
     int (length (filter (live_target g row col) (getHexNeighborOffsets (odd row))))"

definition rule_delta :: "WealthRules \<Rightarrow> int \<Rightarrow> int" where
  "rule_delta wealthRules n = (case js_index wealthRules n of None \<Rightarrow> 0 | Some d \<Rightarrow> d)"

definition evolve :: "CellData \<Rightarrow> int \<Rightarrow> int \<Rightarrow> CellData" where
  "evolve c delta startingWealth =
     (if age c > 0 then
        (if wealth c + delta > 0 then \<lparr>age = age c + 1, wealth = wealth c + delta\<rparr>
         else createEmptyCell)
      else if delta > 0 then \<lparr>age = 1, wealth = startingWealth\<rparr>
      else createEmptyCell)"

definition next_grid :: "grid \<Rightarrow> WealthRules \<Rightarrow> int \<Rightarrow> grid" where
  "next_grid g wealthRules startingWealth =
     map (\<lambda>i. map (\<lambda>j. evolve (g ! i ! j)
                          (rule_delta wealthRules (live_neighbors g (int i) (int j)))
                          startingWealth)
                [0..<grid_width g])
         [0..<length g]"

text \<open>
  A grid whose only live cell, if any, is the one at \<open>(r, c)\<close>.
\<close>

definition others_dead :: "grid \<Rightarrow> int \<Rightarrow> int \<Rightarrow> bool" where
  "others_dead g r c =
     list_all (\<lambda>i. list_all (\<lambda>j. (int i = r \<and> int j = c) \<or> \<not> age (g ! i ! j) > 0)
                        [0..<grid_width g])
              [0..<length g]"

section \<open>Properties of the hex topology\<close>

text \<open>
  C3. getHexNeighborOffsets returns exactly six offset pairs for each row parity; as
  sets they are the two tables of the specification, one for even and one for odd rows.
\<close>

theorem getHexNeighborOffsets_tables:
  "length (getHexNeighborOffsets isOddRow) = 6 \<and>
   set (getHexNeighborOffsets False) = {(-1,-1), (-1,0), (0,-1), (0,1), (1,-1), (1,0)} \<and>
   set (getHexNeighborOffsets True) = {(-1,0), (-1,1), (0,-1), (0,1), (1,0), (1,1)} \<and>
   distinct (getHexNeighborOffsets isOddRow)"
  by (simp add: getHexNeighborOffsets_def)

lemma js_index_Some: "0 \<le> i \<Longrightarrow> i < int (length xs) \<Longrightarrow> js_index xs i = Some (xs ! nat i)"
  by (simp add: js_index_def)

lemma is_grid_row_length: "is_grid g \<Longrightarrow> i < length g \<Longrightarrow> length (g ! i) = grid_width g"
  by (simp add: is_grid_def list_all_length)

lemma in_bounds_nat: "in_bounds g row col \<Longrightarrow> nat row < length g \<and> nat col < grid_width g"
  by (simp add: in_bounds_def nat_less_iff)

lemma count_loop_filter:
  assumes "is_grid g"
  shows "count_loop g (int (length g)) (int (grid_width g)) row col offs n =
           Inr (n + int (length (filter (live_target g row col) offs)))"
proof (induction offs arbitrary: n)
  case Nil
  show ?case by simp
next
  case (Cons d offs)
  obtain dr dc where d: "d = (dr, dc)" by (cases d)
  show ?case
  proof (cases "in_bounds g (row + dr) (col + dc)")
    case True
    then have "nat (row + dr) < length g"
      by (simp add: in_bounds_nat)
    then have len: "length (g ! nat (row + dr)) = grid_width g"
      using assms by (rule is_grid_row_length [rotated])
    with True have "js_index (g ! nat (row + dr)) (col + dc) = Some (cell_at g (row + dr) (col + dc))"
      by (simp add: in_bounds_def js_index_Some cell_at_def)
    with True show ?thesis
      by (simp add: d Cons.IH live_target_def in_bounds_def)
  next
    case False
    then show ?thesis
      by (auto simp add: d Cons.IH live_target_def in_bounds_def)
  qed
qed

lemma js_rem_odd: "0 \<le> row \<Longrightarrow> (js_rem row 2 = 1) = odd row"
  by (cases "row = 0") (auto simp add: js_rem_def odd_iff_mod_2_eq_one)

lemma distinct_offsets: "distinct (getHexNeighborOffsets b)"
  by (simp add: getHexNeighborOffsets_def)

lemma getNeighborCount_filter:
  assumes "is_grid g" and "in_bounds g row col"
  shows "getNeighborCount g row col =
           Inr (int (length (filter (live_target g row col) (getHexNeighborOffsets (odd row)))))"
proof -
  from assms(2) obtain row0 rest where g: "g = row0 # rest"
    by (cases g) (auto simp add: in_bounds_def)
  have w: "length row0 = grid_width g" by (simp add: g grid_width_def)
  have "0 \<le> row" using assms(2) by (simp add: in_bounds_def)
  then have par: "(js_rem row 2 = 1) = odd row" by (rule js_rem_odd)
  have "getNeighborCount g row col =
          count_loop g (int (length g)) (int (grid_width g)) row col (getHexNeighborOffsets (odd row)) 0"
    unfolding getNeighborCount_def by (simp add: g par grid_width_def)
  then show ?thesis by (simp add: count_loop_filter [OF assms(1)])
qed

text \<open>
  C2. On a grid, at a position inside it, getNeighborCount returns an integer from 0 to
  6: the number of offsets of the row's parity whose target is inside the grid and holds
  a cell of positive age. Targets outside the grid count for nothing.
\<close>

theorem getNeighborCount_counts_live_targets:
  assumes "is_grid g" and "in_bounds g row col"
  shows "\<exists>n. getNeighborCount g row col = Inr n \<and> 0 \<le> n \<and> n \<le> 6 \<and>
             n = int (card {d \<in> set (getHexNeighborOffsets (odd row)). live_target g row col d})"
proof -
  let ?offs = "getHexNeighborOffsets (odd row)"
  let ?live = "filter (live_target g row col) ?offs"
  have "length ?live \<le> length ?offs" by (rule length_filter_le)
  also have "length ?offs = 6" by (simp add: getHexNeighborOffsets_def)
  finally have le: "length ?live \<le> 6" .
  have "distinct ?live" by (simp add: distinct_offsets)
  then have "card (set ?live) = length ?live" by (rule distinct_card)
  moreover have "set ?live = {d \<in> set ?offs. live_target g row col d}" by auto
  ultimately have "int (length ?live) = int (card {d \<in> set ?offs. live_target g row col d})"
    by simp
  with le getNeighborCount_filter [OF assms] show ?thesis by simp
qed

theorem getNeighborCount_counts_live_targets_witness:
  "is_grid [[\<lparr>age = 0, wealth = 0\<rparr>, \<lparr>age = 1, wealth = 10\<rparr>],
            [\<lparr>age = 5, wealth = 50\<rparr>, \<lparr>age = 0, wealth = 0\<rparr>]] \<and>
   in_bounds [[\<lparr>age = 0, wealth = 0\<rparr>, \<lparr>age = 1, wealth = 10\<rparr>],
            [\<lparr>age = 5, wealth = 50\<rparr>, \<lparr>age = 0, wealth = 0\<rparr>]] 0 0 \<and>
   getNeighborCount [[\<lparr>age = 0, wealth = 0\<rparr>, \<lparr>age = 1, wealth = 10\<rparr>],
            [\<lparr>age = 5, wealth = 50\<rparr>, \<lparr>age = 0, wealth = 0\<rparr>]] 0 0 = Inr 2 \<and>
   card {d \<in> set (getHexNeighborOffsets (odd (0::int))).
           live_target [[\<lparr>age = 0, wealth = 0\<rparr>, \<lparr>age = 1, wealth = 10\<rparr>],
            [\<lparr>age = 5, wealth = 50\<rparr>, \<lparr>age = 0, wealth = 0\<rparr>]] 0 0 d} = 2"
proof -
  let ?g = "[[\<lparr>age = 0, wealth = 0\<rparr>, \<lparr>age = 1, wealth = 10\<rparr>],
            [\<lparr>age = 5, wealth = 50\<rparr>, \<lparr>age = 0, wealth = 0\<rparr>]]"
  have a: "is_grid ?g" by (simp add: is_grid_def grid_width_def array_length_ok_def)
  have b: "in_bounds ?g 0 0" by (simp add: in_bounds_def grid_width_def)
  have c: "getNeighborCount ?g 0 0 = Inr 2"
    by (simp add: getNeighborCount_def getHexNeighborOffsets_def js_rem_def js_index_def)
  from getNeighborCount_counts_live_targets [OF a b] c
  have "card {d \<in> set (getHexNeighborOffsets (odd (0::int))). live_target ?g 0 0 d} = 2"
    by simp
  with a b c show ?thesis by simp
qed

section \<open>The transition engine\<close>

lemma col_loop_done: "\<not> col < limit \<Longrightarrow> col_loop body limit row col G = Inr G"
  by (simp add: col_loop.simps [of body limit row col G])

lemma col_loop_step:
  "col < limit \<Longrightarrow> body col = Inr cell \<Longrightarrow>
   col_loop body limit row col G =
     col_loop body limit row (Suc col) (G[row := (G ! row)[col := cell]])"
  by (simp add: col_loop.simps [of body limit row col G])

lemma row_loop_done: "\<not> row < rowLimit \<Longrightarrow> row_loop body rowLimit colLimit row G = Inr G"
  by (simp add: row_loop.simps [of body rowLimit colLimit row G])

lemma row_loop_step:
  "row < rowLimit \<Longrightarrow> col_loop (body row) colLimit row 0 G = Inr filled \<Longrightarrow>
   row_loop body rowLimit colLimit row G = row_loop body rowLimit colLimit (Suc row) filled"
  by (simp add: row_loop.simps [of body rowLimit colLimit row G])

lemma col_loop_fills:
  assumes "row < length G" and "limit \<le> length (G ! row)" and "col \<le> limit"
    and "\<And>j. j < limit \<Longrightarrow> body j = Inr (f j)"
  shows "col_loop body limit row col G =
           Inr (G[row := take col (G ! row) @ map f [col..<limit] @ drop limit (G ! row)])"
  using assms
proof (induction body limit row col G rule: col_loop.induct)
  case (1 body limit row col newGrid)
  show ?case
  proof (cases "col < limit")
    case False
    with "1.prems" have "col = limit" by simp
    with "1.prems" show ?thesis
      by (simp add: col_loop_done)
  next
    case True
    let ?G = "newGrid[row := (newGrid ! row)[col := f col]]"
    have b: "body col = Inr (f col)" using True "1.prems"(4) by simp
    have r: "?G ! row = (newGrid ! row)[col := f col]" using "1.prems"(1) by simp
    have "col_loop body limit row (Suc col) ?G =
           Inr (?G[row := take (Suc col) (?G ! row) @ map f [Suc col..<limit] @ drop limit (?G ! row)])"
      using True "1.prems" by (intro "1.IH" [OF True b]) simp_all
    moreover have "take (Suc col) (?G ! row) = take col (newGrid ! row) @ [f col]"
      using True "1.prems"(2) by (simp add: r take_Suc_conv_app_nth)
    moreover have "drop limit (?G ! row) = drop limit (newGrid ! row)"
      using True by (simp add: r)
    moreover have "[col..<limit] = col # [Suc col..<limit]"
      using True by (simp add: upt_conv_Cons)
    ultimately show ?thesis
      using True b by (simp add: col_loop_step)
  qed
qed

lemma row_loop_fills:
  assumes "rowLimit \<le> length G" and "\<And>i. i < rowLimit \<Longrightarrow> colLimit \<le> length (G ! i)"
    and "row \<le> rowLimit"
    and "\<And>i j. i < rowLimit \<Longrightarrow> j < colLimit \<Longrightarrow> body i j = Inr (f i j)"
  shows "row_loop body rowLimit colLimit row G =
           Inr (take row G @
                map (\<lambda>i. map (f i) [0..<colLimit] @ drop colLimit (G ! i)) [row..<rowLimit] @
                drop rowLimit G)"
  using assms
proof (induction body rowLimit colLimit row G rule: row_loop.induct)
  case (1 body rowLimit colLimit row newGrid)
  show ?case
  proof (cases "row < rowLimit")
    case False
    with "1.prems" have "row = rowLimit" by simp
    then show ?thesis
      by (simp add: row_loop_done)
  next
    case True
    let ?r = "map (f row) [0..<colLimit] @ drop colLimit (newGrid ! row)"
    let ?G = "newGrid[row := ?r]"
    have rl: "row < length newGrid" using True "1.prems"(1) by simp
    have c: "col_loop (body row) colLimit row 0 newGrid = Inr ?G"
      using col_loop_fills [of row newGrid colLimit 0 "body row" "f row"] True rl "1.prems"(2,4)
      by simp
    have other: "\<And>i. row < i \<Longrightarrow> ?G ! i = newGrid ! i" by simp
    have "row_loop body rowLimit colLimit (Suc row) ?G =
            Inr (take (Suc row) ?G @
                 map (\<lambda>i. map (f i) [0..<colLimit] @ drop colLimit (?G ! i)) [Suc row..<rowLimit] @
                 drop rowLimit ?G)"
    proof (rule "1.IH" [OF True c])
      show "rowLimit \<le> length ?G" using "1.prems"(1) by simp
      show "colLimit \<le> length (?G ! i)" if "i < rowLimit" for i
        using that "1.prems"(2) [of i] "1.prems"(2) [of row] True rl
        by (cases "i = row") simp_all
      show "Suc row \<le> rowLimit" using True by simp
      show "body i j = Inr (f i j)" if "i < rowLimit" "j < colLimit" for i j
        using that by (rule "1.prems"(4))
    qed
    moreover have "take (Suc row) ?G = take row newGrid @ [?r]"
      using rl by (simp add: take_Suc_conv_app_nth)
    moreover have "drop rowLimit ?G = drop rowLimit newGrid"
      using True by simp
    moreover have "map (\<lambda>i. map (f i) [0..<colLimit] @ drop colLimit (?G ! i)) [Suc row..<rowLimit]
                 = map (\<lambda>i. map (f i) [0..<colLimit] @ drop colLimit (newGrid ! i)) [Suc row..<rowLimit]"
      by (rule map_cong) (simp_all add: other)
    moreover have "[row..<rowLimit] = row # [Suc row..<rowLimit]"
      using True by (simp add: upt_conv_Cons)
    ultimately show ?thesis
      using True c by (simp add: row_loop_step)
  qed
qed

lemma getNeighborCount_live_neighbors:
  assumes "is_grid g" and "in_bounds g row col"
  shows "getNeighborCount g row col = Inr (live_neighbors g row col)"
  using getNeighborCount_filter [OF assms] by (simp add: live_neighbors_def)

lemma nextCell_evolve:
  assumes "is_grid g" and "i < length g" and "j < grid_width g"
  shows "nextCell g wealthRules startingWealth i j =
           Inr (evolve (g ! i ! j)
                  (rule_delta wealthRules (live_neighbors g (int i) (int j))) startingWealth)"
proof -
  have ib: "in_bounds g (int i) (int j)" using assms(2,3) by (simp add: in_bounds_def)
  have "length (g ! i) = grid_width g" using assms(1,2) by (rule is_grid_row_length)
  then have "js_index (g ! i) (int j) = Some (g ! i ! j)"
    using assms(3) by (simp add: js_index_def)
  then show ?thesis
    by (simp add: nextCell_def getNeighborCount_live_neighbors [OF assms(1) ib]
        evolve_def rule_delta_def Let_def)
qed

lemma computeNextGeneration_next_grid:
  assumes "is_grid g" and "g \<noteq> []"
  shows "computeNextGeneration g wealthRules startingWealth =
           Inr (next_grid g wealthRules startingWealth)"
proof -
  let ?H = "length g" and ?W = "grid_width g"
  let ?E = "replicate ?H (replicate ?W createEmptyCell)"
  let ?f = "\<lambda>i j. evolve (g ! i ! j)
                  (rule_delta wealthRules (live_neighbors g (int i) (int j))) startingWealth"
  have unf: "computeNextGeneration g wealthRules startingWealth =
               (case createEmptyGrid (int ?W) (int ?H) of
                  Inl e \<Rightarrow> Inl e
                | Inr newGrid \<Rightarrow>
                    row_loop (nextCell g wealthRules startingWealth) ?H ?W 0 newGrid)"
    using assms(2)
    by (cases g) (simp_all add: computeNextGeneration_def grid_width_def Let_def split: sum.split)
  have "array_length_ok (int ?H)" and "array_length_ok (int ?W)"
    using assms(1) by (simp_all add: is_grid_def)
  moreover have "int ?H \<noteq> 0" using assms(2) by simp
  ultimately have e: "createEmptyGrid (int ?W) (int ?H) = Inr ?E"
    by (simp add: createEmptyGrid_def)
  have "row_loop (nextCell g wealthRules startingWealth) ?H ?W 0 ?E =
          Inr (take 0 ?E @
               map (\<lambda>i. map (?f i) [0..<?W] @ drop ?W (?E ! i)) [0..<?H] @
               drop ?H ?E)"
    by (rule row_loop_fills) (simp_all add: nextCell_evolve [OF assms(1)])
  moreover have "map (\<lambda>i. map (?f i) [0..<?W] @ drop ?W (?E ! i)) [0..<?H] =
                 map (\<lambda>i. map (?f i) [0..<?W]) [0..<?H]"
    by (rule map_cong) simp_all
  ultimately have "row_loop (nextCell g wealthRules startingWealth) ?H ?W 0 ?E =
          Inr (next_grid g wealthRules startingWealth)"
    by (simp add: next_grid_def)
  then show ?thesis
    unfolding unf e by simp
qed

lemma next_grid_shape:
  "length (next_grid g wealthRules startingWealth) = length g"
  "g \<noteq> [] \<Longrightarrow> grid_width (next_grid g wealthRules startingWealth) = grid_width g"
  "is_grid g \<Longrightarrow> is_grid (next_grid g wealthRules startingWealth)"
proof -
  show l: "length (next_grid g wealthRules startingWealth) = length g"
    by (simp add: next_grid_def)
  have r: "length r = grid_width g" if "r \<in> set (next_grid g wealthRules startingWealth)" for r
    using that by (auto simp add: next_grid_def)
  show w: "grid_width (next_grid g wealthRules startingWealth) = grid_width g" if "g \<noteq> []"
  proof -
    from that l obtain r rs where n: "next_grid g wealthRules startingWealth = r # rs"
      by (cases "next_grid g wealthRules startingWealth") auto
    then have "length r = grid_width g" using r by simp
    then show ?thesis by (simp add: n grid_width_def)
  qed
  show "is_grid (next_grid g wealthRules startingWealth)" if "is_grid g"
  proof (cases "g = []")
    case True
    then show ?thesis by (simp add: next_grid_def is_grid_def grid_width_def array_length_ok_def)
  next
    case False
    with that show ?thesis
      using r by (simp add: is_grid_def l w [OF False] list_all_iff)
  qed
qed

lemma next_grid_cell:
  assumes "in_bounds g row col"
  shows "cell_at (next_grid g wealthRules startingWealth) row col =
           evolve (cell_at g row col) (rule_delta wealthRules (live_neighbors g row col))
             startingWealth"
proof -
  from assms have "nat row < length g" "nat col < grid_width g" "0 \<le> row" "0 \<le> col"
    by (simp_all add: in_bounds_def nat_less_iff)
  then show ?thesis by (simp add: cell_at_def next_grid_def)
qed

lemma live_neighbors_range: "0 \<le> live_neighbors g row col \<and> live_neighbors g row col \<le> 6"
proof -
  let ?offs = "getHexNeighborOffsets (odd row)"
  have "length (filter (live_target g row col) ?offs) \<le> length ?offs"
    by (rule length_filter_le)
  also have "length ?offs = 6" by (simp add: getHexNeighborOffsets_def)
  finally show ?thesis by (simp add: live_neighbors_def)
qed

text \<open>
  C1. On a non-empty grid, with a rule table of seven integers and any starting wealth,
  computeNextGeneration returns a grid of the same height and width. Each cell of it
  depends only on the input: with \<open>n\<close> the live neighbours of the position and \<open>delta\<close> the
  rule entry for \<open>n\<close>, a live cell whose wealth plus \<open>delta\<close> is positive ages by one and
  takes that wealth; a live cell whose wealth plus \<open>delta\<close> is not positive becomes the
  dead cell, its wealth dropped; a dead cell is born with age 1 and the starting wealth
  when \<open>delta\<close> is positive; every other cell becomes the dead cell. Ages are those of the
  data model, not negative; the age and the wealth of the cell, \<open>delta\<close> and the wealth
  plus \<open>delta\<close> are safe integers, the numbers on which the program's additions are exact.
\<close>

theorem computeNextGeneration_pointwise:
  assumes "is_grid g" and "g \<noteq> []" and "length wealthRules = 7"
  shows "\<exists>g'. computeNextGeneration g wealthRules startingWealth = Inr g' \<and>
           is_grid g' \<and> length g' = length g \<and> grid_width g' = grid_width g \<and>
           (\<forall>row col. in_bounds g row col \<and> 0 \<le> age (cell_at g row col) \<and>
                      safe_integer (age (cell_at g row col)) \<and>
                      safe_integer (wealth (cell_at g row col)) \<longrightarrow>
              (\<exists>n. getNeighborCount g row col = Inr n \<and>
                 (let c = cell_at g row col; delta = wealthRules ! nat n in
                  safe_integer delta \<and> safe_integer (wealth c + delta) \<longrightarrow>
                  cell_at g' row col =
                    (if age c > 0 \<and> wealth c + delta > 0
                       then \<lparr>age = age c + 1, wealth = wealth c + delta\<rparr>
                     else if age c > 0 \<and> wealth c + delta \<le> 0
                       then \<lparr>age = 0, wealth = 0\<rparr>
                     else if age c = 0 \<and> delta > 0
                       then \<lparr>age = 1, wealth = startingWealth\<rparr>
                     else \<lparr>age = 0, wealth = 0\<rparr>))))"
proof -
  let ?g' = "next_grid g wealthRules startingWealth"
  have cell: "\<exists>n. getNeighborCount g row col = Inr n \<and>
                 (let c = cell_at g row col; delta = wealthRules ! nat n in
                  safe_integer delta \<and> safe_integer (wealth c + delta) \<longrightarrow>
                  cell_at ?g' row col =
                    (if age c > 0 \<and> wealth c + delta > 0
                       then \<lparr>age = age c + 1, wealth = wealth c + delta\<rparr>
                     else if age c > 0 \<and> wealth c + delta \<le> 0
                       then \<lparr>age = 0, wealth = 0\<rparr>
                     else if age c = 0 \<and> delta > 0
                       then \<lparr>age = 1, wealth = startingWealth\<rparr>
                     else \<lparr>age = 0, wealth = 0\<rparr>))"
    if ib: "in_bounds g row col" and nn: "0 \<le> age (cell_at g row col)" for row col
  proof -
    let ?n = "live_neighbors g row col"
    have "0 \<le> ?n" "?n < int (length wealthRules)"
      using live_neighbors_range [of g row col] assms(3) by simp_all
    then have d: "rule_delta wealthRules ?n = wealthRules ! nat ?n"
      by (simp add: rule_delta_def js_index_def)
    show ?thesis
      using nn
      by (intro exI [of _ ?n])
         (auto simp add: getNeighborCount_live_neighbors [OF assms(1) ib] next_grid_cell [OF ib]
            d evolve_def createEmptyCell_def Let_def)
  qed
  show ?thesis
    using computeNextGeneration_next_grid [OF assms(1,2)] next_grid_shape [of g] assms(1,2) cell
    by (intro exI [of _ ?g']) simp
qed

text \<open>
  C10. computeNextGeneration returns for a rule table of any length: on a non-empty
  grid it yields a grid of the same shape, and at a position whose neighbour count has
  no entry in the table the wealth change applied is 0. The value of a next cell is stated
  where the age and the wealth of the cell, the wealth change and the wealth plus the
  change are safe integers, the numbers on which the program's additions are exact.
\<close>

theorem computeNextGeneration_any_rules:
  assumes "is_grid g" and "g \<noteq> []"
  shows "\<exists>g'. computeNextGeneration g wealthRules startingWealth = Inr g' \<and>
           is_grid g' \<and> length g' = length g \<and> grid_width g' = grid_width g \<and>
           (\<forall>row col. in_bounds g row col \<and>
                      safe_integer (age (cell_at g row col)) \<and>
                      safe_integer (wealth (cell_at g row col)) \<longrightarrow>
              (\<exists>n delta. getNeighborCount g row col = Inr n \<and>
                 delta = (if n < int (length wealthRules) then wealthRules ! nat n else 0) \<and>
                 (let c = cell_at g row col in
                  safe_integer delta \<and> safe_integer (wealth c + delta) \<longrightarrow>
                  cell_at g' row col =
                    (if age c > 0
                       then (if wealth c + delta > 0
                             then \<lparr>age = age c + 1, wealth = wealth c + delta\<rparr>
                             else \<lparr>age = 0, wealth = 0\<rparr>)
                     else if delta > 0 then \<lparr>age = 1, wealth = startingWealth\<rparr>
                     else \<lparr>age = 0, wealth = 0\<rparr>))))"
proof -
  let ?g' = "next_grid g wealthRules startingWealth"
  have cell: "\<exists>n delta. getNeighborCount g row col = Inr n \<and>
                 delta = (if n < int (length wealthRules) then wealthRules ! nat n else 0) \<and>
                 (let c = cell_at g row col in
                  safe_integer delta \<and> safe_integer (wealth c + delta) \<longrightarrow>
                  cell_at ?g' row col =
                    (if age c > 0
                       then (if wealth c + delta > 0
                             then \<lparr>age = age c + 1, wealth = wealth c + delta\<rparr>
                             else \<lparr>age = 0, wealth = 0\<rparr>)
                     else if delta > 0 then \<lparr>age = 1, wealth = startingWealth\<rparr>
                     else \<lparr>age = 0, wealth = 0\<rparr>))"
    if ib: "in_bounds g row col" for row col
  proof -
    let ?n = "live_neighbors g row col"
    have "0 \<le> ?n" using live_neighbors_range [of g row col] by simp
    then have d: "rule_delta wealthRules ?n =
                    (if ?n < int (length wealthRules) then wealthRules ! nat ?n else 0)"
      by (simp add: rule_delta_def js_index_def)
    show ?thesis
      by (intro exI [of _ ?n] exI [of _ "rule_delta wealthRules ?n"])
         (simp add: getNeighborCount_live_neighbors [OF assms(1) ib] next_grid_cell [OF ib]
            d evolve_def createEmptyCell_def Let_def)
  qed
  show ?thesis
    using computeNextGeneration_next_grid [OF assms(1,2)] next_grid_shape [of g] assms(1,2) cell
    by (intro exI [of _ ?g']) simp
qed

theorem computeNextGeneration_pointwise_witness:
  "is_grid [[\<lparr>age = 0, wealth = 0\<rparr>, \<lparr>age = 1, wealth = 10\<rparr>, \<lparr>age = 0, wealth = 0\<rparr>],
            [\<lparr>age = 1, wealth = 10\<rparr>, \<lparr>age = 0, wealth = 0\<rparr>, \<lparr>age = 0, wealth = 0\<rparr>],
            [\<lparr>age = 0, wealth = 0\<rparr>, \<lparr>age = 0, wealth = 0\<rparr>, \<lparr>age = 0, wealth = 0\<rparr>]] \<and>
   length [-5, -3, 5, 3, -1, -2, -3 :: int] = 7 \<and>
   safe_integer 1 \<and> safe_integer 10 \<and> safe_integer (-3) \<and> safe_integer (10 + (-3)) \<and>
   (\<exists>g'. computeNextGeneration
            [[\<lparr>age = 0, wealth = 0\<rparr>, \<lparr>age = 1, wealth = 10\<rparr>, \<lparr>age = 0, wealth = 0\<rparr>],
             [\<lparr>age = 1, wealth = 10\<rparr>, \<lparr>age = 0, wealth = 0\<rparr>, \<lparr>age = 0, wealth = 0\<rparr>],
             [\<lparr>age = 0, wealth = 0\<rparr>, \<lparr>age = 0, wealth = 0\<rparr>, \<lparr>age = 0, wealth = 0\<rparr>]]
            [-5, -3, 5, 3, -1, -2, -3] 10 = Inr g' \<and>
          length g' = 3 \<and> grid_width g' = 3 \<and>
          cell_at g' 1 1 = \<lparr>age = 1, wealth = 10\<rparr> \<and>
          cell_at g' 0 1 = \<lparr>age = 2, wealth = 7\<rparr>)"
proof -
  let ?g = "[[\<lparr>age = 0, wealth = 0\<rparr>, \<lparr>age = 1, wealth = 10\<rparr>, \<lparr>age = 0, wealth = 0\<rparr>],
             [\<lparr>age = 1, wealth = 10\<rparr>, \<lparr>age = 0, wealth = 0\<rparr>, \<lparr>age = 0, wealth = 0\<rparr>],
             [\<lparr>age = 0, wealth = 0\<rparr>, \<lparr>age = 0, wealth = 0\<rparr>, \<lparr>age = 0, wealth = 0\<rparr>]]"
  let ?rules = "[-5, -3, 5, 3, -1, -2, -3 :: int]"
  have a: "is_grid ?g" by (simp add: is_grid_def grid_width_def array_length_ok_def)
  have b: "?g \<noteq> []" by simp
  have c: "length ?rules = 7" by simp
  have ib: "in_bounds ?g 1 1" "in_bounds ?g 0 1" by (simp_all add: in_bounds_def grid_width_def)
  have n: "getNeighborCount ?g 1 1 = Inr 2" "getNeighborCount ?g 0 1 = Inr 1"
    by (simp_all add: getNeighborCount_def getHexNeighborOffsets_def js_rem_def js_index_def)
  from computeNextGeneration_pointwise [OF a b c, of 10]
  obtain g' where g': "computeNextGeneration ?g ?rules 10 = Inr g'"
      "length g' = length ?g" "grid_width g' = grid_width ?g"
    and pw: "\<And>row col. in_bounds ?g row col \<and> 0 \<le> age (cell_at ?g row col) \<and>
                      safe_integer (age (cell_at ?g row col)) \<and>
                      safe_integer (wealth (cell_at ?g row col)) \<Longrightarrow>
              (\<exists>n. getNeighborCount ?g row col = Inr n \<and>
                 (let c = cell_at ?g row col; delta = ?rules ! nat n in
                  safe_integer delta \<and> safe_integer (wealth c + delta) \<longrightarrow>
                  cell_at g' row col =
                    (if age c > 0 \<and> wealth c + delta > 0
                       then \<lparr>age = age c + 1, wealth = wealth c + delta\<rparr>
                     else if age c > 0 \<and> wealth c + delta \<le> 0
                       then \<lparr>age = 0, wealth = 0\<rparr>
                     else if age c = 0 \<and> delta > 0
                       then \<lparr>age = 1, wealth = 10\<rparr>
                     else \<lparr>age = 0, wealth = 0\<rparr>)))"
    by blast
  have "cell_at g' 1 1 = \<lparr>age = 1, wealth = 10\<rparr>"
    using pw [of 1 1] ib(1) n(1) by (simp add: cell_at_def safe_integer_def)
  moreover have "cell_at g' 0 1 = \<lparr>age = 2, wealth = 7\<rparr>"
    using pw [of 0 1] ib(2) n(2) by (simp add: cell_at_def safe_integer_def)
  ultimately show ?thesis
    using a c g' by (simp add: grid_width_def safe_integer_def)
qed

theorem computeNextGeneration_any_rules_witness:
  "is_grid [[\<lparr>age = 5, wealth = 3\<rparr>, \<lparr>age = 1, wealth = 10\<rparr>]] \<and>
   safe_integer 5 \<and> safe_integer 3 \<and> safe_integer 0 \<and> safe_integer (3 + 0) \<and>
   (\<exists>g'. computeNextGeneration [[\<lparr>age = 5, wealth = 3\<rparr>, \<lparr>age = 1, wealth = 10\<rparr>]] [-5] 10 = Inr g' \<and>
          length g' = 1 \<and> grid_width g' = 2 \<and>
          getNeighborCount [[\<lparr>age = 5, wealth = 3\<rparr>, \<lparr>age = 1, wealth = 10\<rparr>]] 0 0 = Inr 1 \<and>
          cell_at g' 0 0 = \<lparr>age = 6, wealth = 3\<rparr>)"
proof -
  let ?g = "[[\<lparr>age = 5, wealth = 3\<rparr>, \<lparr>age = 1, wealth = 10\<rparr>]]"
  have a: "is_grid ?g" by (simp add: is_grid_def grid_width_def array_length_ok_def)
  have b: "?g \<noteq> []" by simp
  have ib: "in_bounds ?g 0 0" by (simp add: in_bounds_def grid_width_def)
  have n: "getNeighborCount ?g 0 0 = Inr 1"
    by (simp add: getNeighborCount_def getHexNeighborOffsets_def js_rem_def js_index_def)
  from computeNextGeneration_any_rules [OF a b, of "[-5]" 10]
  obtain g' where g': "computeNextGeneration ?g [-5] 10 = Inr g'"
      "length g' = length ?g" "grid_width g' = grid_width ?g"
    and pw: "\<And>row col. in_bounds ?g row col \<and>
                      safe_integer (age (cell_at ?g row col)) \<and>
                      safe_integer (wealth (cell_at ?g row col)) \<Longrightarrow>
              (\<exists>n delta. getNeighborCount ?g row col = Inr n \<and>
                 delta = (if n < int (length [-5 :: int]) then [-5] ! nat n else 0) \<and>
                 (let c = cell_at ?g row col in
                  safe_integer delta \<and> safe_integer (wealth c + delta) \<longrightarrow>
                  cell_at g' row col =
                    (if age c > 0
                       then (if wealth c + delta > 0
                             then \<lparr>age = age c + 1, wealth = wealth c + delta\<rparr>
                             else \<lparr>age = 0, wealth = 0\<rparr>)
                     else if delta > 0 then \<lparr>age = 1, wealth = 10\<rparr>
                     else \<lparr>age = 0, wealth = 0\<rparr>)))"
    by blast
  have "cell_at g' 0 0 = \<lparr>age = 6, wealth = 3\<rparr>"
    using pw [of 0 0] ib n by (simp add: cell_at_def safe_integer_def)
  then show ?thesis
    using a g' n by (simp add: grid_width_def safe_integer_def)
qed

section \<open>The extinction scenario\<close>

lemma others_dead_iff:
  "others_dead g r c \<longleftrightarrow>
     (\<forall>i j. in_bounds g i j \<and> age (cell_at g i j) > 0 \<longrightarrow> i = r \<and> j = c)"
proof
  assume od: "others_dead g r c"
  show "\<forall>i j. in_bounds g i j \<and> age (cell_at g i j) > 0 \<longrightarrow> i = r \<and> j = c"
  proof (intro allI impI)
    fix i j
    assume h: "in_bounds g i j \<and> age (cell_at g i j) > 0"
    then have "nat i < length g" "nat j < grid_width g" "0 \<le> i" "0 \<le> j"
      by (simp_all add: in_bounds_def nat_less_iff)
    with od [unfolded others_dead_def list_all_iff, rule_format, of "nat i" "nat j"]
    have "(int (nat i) = r \<and> int (nat j) = c) \<or> \<not> age (g ! nat i ! nat j) > 0"
      by simp
    with h \<open>0 \<le> i\<close> \<open>0 \<le> j\<close> show "i = r \<and> j = c"
      by (simp add: cell_at_def)
  qed
next
  assume a: "\<forall>i j. in_bounds g i j \<and> age (cell_at g i j) > 0 \<longrightarrow> i = r \<and> j = c"
  show "others_dead g r c"
    unfolding others_dead_def list_all_iff
  proof (intro ballI)
    fix i j
    assume "i \<in> set [0..<length g]" "j \<in> set [0..<grid_width g]"
    then have "in_bounds g (int i) (int j)" by (simp add: in_bounds_def)
    with a [rule_format, of "int i" "int j"]
    show "(int i = r \<and> int j = c) \<or> \<not> age (g ! i ! j) > 0"
      by (auto simp add: cell_at_def)
  qed
qed

lemma others_deadD:
  "others_dead g r c \<Longrightarrow> in_bounds g i j \<Longrightarrow> age (cell_at g i j) > 0 \<Longrightarrow> i = r \<and> j = c"
  unfolding others_dead_iff by blast

lemma filter_at_most_one:
  assumes "distinct xs" and "\<And>x. x \<in> set xs \<Longrightarrow> P x \<Longrightarrow> x = a"
  shows "length (filter P xs) \<le> 1"
proof -
  have "distinct (filter P xs)" using assms(1) by simp
  then have l: "card (set (filter P xs)) = length (filter P xs)"
    by (rule distinct_card)
  have "set (filter P xs) \<subseteq> {a}" using assms(2) by auto
  then have "card (set (filter P xs)) \<le> card {a}"
    by (intro card_mono) simp_all
  with l show ?thesis by simp
qed

lemma origin_not_offset: "(0, 0) \<notin> set (getHexNeighborOffsets b)"
  by (simp add: getHexNeighborOffsets_def)

lemma lone_neighbors_self:
  assumes "others_dead g r c"
  shows "live_neighbors g r c = 0"
proof -
  have "\<not> live_target g r c d" if "d \<in> set (getHexNeighborOffsets (odd r))" for d
  proof
    assume "live_target g r c d"
    then have "in_bounds g (r + fst d) (c + snd d)" "age (cell_at g (r + fst d) (c + snd d)) > 0"
      by (simp_all add: live_target_def)
    with assms have "r + fst d = r \<and> c + snd d = c"
      by (rule others_deadD)
    then have "d = (0, 0)" by (cases d) simp
    with that origin_not_offset show False by simp
  qed
  then have "filter (live_target g r c) (getHexNeighborOffsets (odd r)) = []"
    by (simp add: filter_empty_conv)
  then show ?thesis by (simp add: live_neighbors_def)
qed

lemma lone_neighbors_other:
  assumes "others_dead g r c"
  shows "live_neighbors g i j = 0 \<or> live_neighbors g i j = 1"
proof -
  have "d = (r - i, c - j)"
    if "d \<in> set (getHexNeighborOffsets (odd i))" and "live_target g i j d" for d
  proof -
    from that(2) have "in_bounds g (i + fst d) (j + snd d)" "age (cell_at g (i + fst d) (j + snd d)) > 0"
      by (simp_all add: live_target_def)
    with assms have "i + fst d = r \<and> j + snd d = c"
      by (rule others_deadD)
    then show ?thesis by (cases d) auto
  qed
  with distinct_offsets have "length (filter (live_target g i j) (getHexNeighborOffsets (odd i))) \<le> 1"
    by (rule filter_at_most_one)
  then have "int (length (filter (live_target g i j) (getHexNeighborOffsets (odd i)))) = 0 \<or>
             int (length (filter (live_target g i j) (getHexNeighborOffsets (odd i)))) = 1"
    by linarith
  then show ?thesis unfolding live_neighbors_def .
qed

lemma default_rules_delta:
  "rule_delta defaultWealthRules 0 = -1" "rule_delta defaultWealthRules 1 = -3"
  by (simp_all add: rule_delta_def defaultWealthRules_def js_index_def)

lemma lone_step_self:
  assumes "in_bounds g r c" and "others_dead g r c"
  shows "cell_at (next_grid g defaultWealthRules sw) r c = evolve (cell_at g r c) (-1) sw"
  by (simp add: next_grid_cell [OF assms(1)] lone_neighbors_self [OF assms(2)] default_rules_delta)

lemma lone_step_other:
  assumes "in_bounds g i j" and "others_dead g r c" and "\<not> (i = r \<and> j = c)"
  shows "cell_at (next_grid g defaultWealthRules sw) i j = createEmptyCell"
proof -
  have dead: "\<not> age (cell_at g i j) > 0"
    using others_deadD [OF assms(2,1)] assms(3) by blast
  from lone_neighbors_other [OF assms(2), of i j]
  have "rule_delta defaultWealthRules (live_neighbors g i j) \<le> 0"
    by (auto simp add: default_rules_delta)
  with dead show ?thesis
    by (simp add: next_grid_cell [OF assms(1)] evolve_def)
qed

lemma in_bounds_next_grid:
  assumes "g \<noteq> []"
  shows "in_bounds (next_grid g wealthRules sw) i j = in_bounds g i j"
  by (simp add: in_bounds_def next_grid_shape(1) next_grid_shape(2) [OF assms])

lemma in_bounds_nonempty: "in_bounds g r c \<Longrightarrow> g \<noteq> []"
  by (auto simp add: in_bounds_def)

lemma lone_step_others_dead:
  assumes "in_bounds g r c" and "others_dead g r c"
  shows "others_dead (next_grid g defaultWealthRules sw) r c"
  unfolding others_dead_iff
proof (intro allI impI)
  fix i j
  assume h: "in_bounds (next_grid g defaultWealthRules sw) i j \<and>
             age (cell_at (next_grid g defaultWealthRules sw) i j) > 0"
  then have ib: "in_bounds g i j"
    by (simp add: in_bounds_next_grid [OF in_bounds_nonempty [OF assms(1)]])
  show "i = r \<and> j = c"
  proof (rule ccontr)
    assume "\<not> (i = r \<and> j = c)"
    then have "cell_at (next_grid g defaultWealthRules sw) i j = createEmptyCell"
      by (rule lone_step_other [OF ib assms(2)])
    with h show False by (simp add: createEmptyCell_def)
  qed
qed

lemma no_alive_cells:
  assumes "\<And>i j. in_bounds g i j \<Longrightarrow> \<not> age (cell_at g i j) > 0" and "is_grid g"
  shows "\<not> hasAliveCells g"
proof
  assume "hasAliveCells g"
  then obtain row cell where "row \<in> set g" "cell \<in> set row" "age cell > 0"
    by (auto simp add: hasAliveCells_def list_ex_iff)
  then obtain i j where ij: "i < length g" "g ! i = row" "j < length row" "row ! j = cell"
    by (auto simp add: in_set_conv_nth)
  then have "length row = grid_width g" using assms(2) is_grid_row_length by blast
  with ij have "in_bounds g (int i) (int j)" by (simp add: in_bounds_def)
  from assms(1) [OF this] ij \<open>age cell > 0\<close> show False by (simp add: cell_at_def)
qed

lemma lone_survives:
  assumes "is_grid g" and "in_bounds g r c" and "others_dead g r c"
    and "cell_at g r c = \<lparr>age = a, wealth = w\<rparr>" and "0 < a" and "int k < w"
  shows "\<exists>gk. generations k g defaultWealthRules sw = Inr gk \<and>
              is_grid gk \<and> length gk = length g \<and> grid_width gk = grid_width g \<and>
              cell_at gk r c = \<lparr>age = a + int k, wealth = w - int k\<rparr> \<and> others_dead gk r c"
  using assms
proof (induction k arbitrary: g a w)
  case 0
  then show ?case by simp
next
  case (Suc k)
  let ?g1 = "next_grid g defaultWealthRules sw"
  have ne: "g \<noteq> []" using Suc.prems(2) by (rule in_bounds_nonempty)
  have step: "computeNextGeneration g defaultWealthRules sw = Inr ?g1"
    using Suc.prems(1) ne by (rule computeNextGeneration_next_grid)
  have c1: "cell_at ?g1 r c = \<lparr>age = a + 1, wealth = w - 1\<rparr>"
    using Suc.prems(4,5,6)
    by (simp add: lone_step_self [OF Suc.prems(2,3)] evolve_def)
  have "\<exists>gk. generations k ?g1 defaultWealthRules sw = Inr gk \<and>
              is_grid gk \<and> length gk = length ?g1 \<and> grid_width gk = grid_width ?g1 \<and>
              cell_at gk r c = \<lparr>age = (a + 1) + int k, wealth = (w - 1) - int k\<rparr> \<and>
              others_dead gk r c"
  proof (rule Suc.IH)
    show "is_grid ?g1" using Suc.prems(1) by (rule next_grid_shape(3))
    show "in_bounds ?g1 r c" using Suc.prems(2) by (simp add: in_bounds_next_grid [OF ne])
    show "others_dead ?g1 r c" using Suc.prems(2,3) by (rule lone_step_others_dead)
    show "cell_at ?g1 r c = \<lparr>age = a + 1, wealth = w - 1\<rparr>" by (rule c1)
    show "0 < a + 1" using Suc.prems(5) by simp
    show "int k < w - 1" using Suc.prems(6) by simp
  qed
  then show ?case
    by (simp add: step next_grid_shape(1) next_grid_shape(2) [OF ne] algebra_simps)
qed

lemma lone_dies:
  assumes "is_grid g" and "in_bounds g r c" and "others_dead g r c"
    and "cell_at g r c = \<lparr>age = a, wealth = 1\<rparr>" and "0 < a"
  shows "\<exists>g'. computeNextGeneration g defaultWealthRules sw = Inr g' \<and>
              is_grid g' \<and> length g' = length g \<and> grid_width g' = grid_width g \<and>
              \<not> hasAliveCells g'"
proof -
  let ?g1 = "next_grid g defaultWealthRules sw"
  have ne: "g \<noteq> []" using assms(2) by (rule in_bounds_nonempty)
  have step: "computeNextGeneration g defaultWealthRules sw = Inr ?g1"
    using assms(1) ne by (rule computeNextGeneration_next_grid)
  have "\<not> age (cell_at ?g1 i j) > 0" if "in_bounds ?g1 i j" for i j
  proof (cases "i = r \<and> j = c")
    case True
    then show ?thesis
      using assms(4,5)
      by (simp add: lone_step_self [OF assms(2,3)] evolve_def createEmptyCell_def)
  next
    case False
    from that have "in_bounds g i j" by (simp add: in_bounds_next_grid [OF ne])
    from lone_step_other [OF this assms(3) False] show ?thesis
      by (simp add: createEmptyCell_def)
  qed
  then have "\<not> hasAliveCells ?g1"
    using next_grid_shape(3) [OF assms(1)] by (rule no_alive_cells)
  then show ?thesis
    using step next_grid_shape(3) [OF assms(1)]
    by (simp add: next_grid_shape(1) next_grid_shape(2) [OF ne])
qed

lemma generations_Suc_end:
  "generations (Suc k) g wealthRules sw =
     (case generations k g wealthRules sw of
        Inl e \<Rightarrow> Inl e
      | Inr gk \<Rightarrow> computeNextGeneration gk wealthRules sw)"
proof (induction k arbitrary: g)
  case 0
  show ?case by (cases "computeNextGeneration g wealthRules sw") simp_all
next
  case (Suc k)
  show ?case
  proof (cases "computeNextGeneration g wealthRules sw")
    case (Inl e)
    then show ?thesis by simp
  next
    case (Inr g1)
    have "generations (Suc (Suc k)) g wealthRules sw = generations (Suc k) g1 wealthRules sw"
      using Inr by (simp only: generations.simps sum.case)
    also have "\<dots> = (case generations k g1 wealthRules sw of
                        Inl e \<Rightarrow> Inl e
                      | Inr gk \<Rightarrow> computeNextGeneration gk wealthRules sw)"
      by (rule Suc.IH)
    also have "generations k g1 wealthRules sw = generations (Suc k) g wealthRules sw"
      using Inr by (simp only: generations.simps sum.case)
    finally show ?thesis .
  qed
qed

text \<open>
  C8. From a grid whose only live cell has age 1 and wealth 10, stepping with the default
  rules and starting wealth 10: no cell is ever born; after \<open>k\<close> steps, up to the ninth,
  the cell is alive with age \<open>1 + k\<close> and wealth \<open>10 - k\<close>, one less at each step; it dies
  at the tenth step, where its wealth would reach 0, and the grid after ten steps has no
  live cell, which is what the driver's test for live cells sees.
\<close>

theorem lone_cell_extinction:
  assumes "is_grid g" and "in_bounds g r c"
    and "cell_at g r c = \<lparr>age = 1, wealth = 10\<rparr>" and "others_dead g r c"
  shows "(\<forall>k\<le>9. \<exists>gk. generations k g defaultWealthRules 10 = Inr gk \<and>
              length gk = length g \<and> grid_width gk = grid_width g \<and>
              cell_at gk r c = \<lparr>age = 1 + int k, wealth = 10 - int k\<rparr> \<and>
              others_dead gk r c) \<and>
         (\<exists>g10. generations 10 g defaultWealthRules 10 = Inr g10 \<and>
              length g10 = length g \<and> grid_width g10 = grid_width g \<and>
              \<not> hasAliveCells g10)"
proof
  show "\<forall>k\<le>9. \<exists>gk. generations k g defaultWealthRules 10 = Inr gk \<and>
              length gk = length g \<and> grid_width gk = grid_width g \<and>
              cell_at gk r c = \<lparr>age = 1 + int k, wealth = 10 - int k\<rparr> \<and>
              others_dead gk r c"
  proof (intro allI impI)
    fix k :: nat
    assume "k \<le> 9"
    then have "int k < 10" by simp
    from lone_survives [OF assms(1,2,4,3) _ this, of 10] show
      "\<exists>gk. generations k g defaultWealthRules 10 = Inr gk \<and>
              length gk = length g \<and> grid_width gk = grid_width g \<and>
              cell_at gk r c = \<lparr>age = 1 + int k, wealth = 10 - int k\<rparr> \<and>
              others_dead gk r c"
      by auto
  qed
next
  have "int 9 < 10" by simp
  from lone_survives [OF assms(1,2,4,3) _ this, of 10]
  obtain g9 where g9: "generations 9 g defaultWealthRules 10 = Inr g9" "is_grid g9"
      "length g9 = length g" "grid_width g9 = grid_width g"
      "cell_at g9 r c = \<lparr>age = 10, wealth = 1\<rparr>" "others_dead g9 r c"
    by auto
  have ib: "in_bounds g9 r c" using assms(2) g9(3,4) by (simp add: in_bounds_def)
  from lone_dies [OF g9(2) ib g9(6) g9(5), of 10]
  obtain g10 where g10: "computeNextGeneration g9 defaultWealthRules 10 = Inr g10"
      "length g10 = length g9" "grid_width g10 = grid_width g9" "\<not> hasAliveCells g10"
    by auto
  have "generations (Suc 9) g defaultWealthRules 10 = Inr g10"
    unfolding generations_Suc_end by (simp add: g9(1) g10(1))
  then have "generations 10 g defaultWealthRules 10 = Inr g10"
    by (simp add: eval_nat_numeral)
  with g10 g9 show "\<exists>g10. generations 10 g defaultWealthRules 10 = Inr g10 \<and>
              length g10 = length g \<and> grid_width g10 = grid_width g \<and>
              \<not> hasAliveCells g10"
    by simp
qed

theorem lone_cell_extinction_witness:
  "is_grid [[\<lparr>age = 0, wealth = 0\<rparr>, \<lparr>age = 0, wealth = 0\<rparr>, \<lparr>age = 0, wealth = 0\<rparr>],
            [\<lparr>age = 0, wealth = 0\<rparr>, \<lparr>age = 1, wealth = 10\<rparr>, \<lparr>age = 0, wealth = 0\<rparr>],
            [\<lparr>age = 0, wealth = 0\<rparr>, \<lparr>age = 0, wealth = 0\<rparr>, \<lparr>age = 0, wealth = 0\<rparr>]] \<and>
   others_dead [[\<lparr>age = 0, wealth = 0\<rparr>, \<lparr>age = 0, wealth = 0\<rparr>, \<lparr>age = 0, wealth = 0\<rparr>],
            [\<lparr>age = 0, wealth = 0\<rparr>, \<lparr>age = 1, wealth = 10\<rparr>, \<lparr>age = 0, wealth = 0\<rparr>],
            [\<lparr>age = 0, wealth = 0\<rparr>, \<lparr>age = 0, wealth = 0\<rparr>, \<lparr>age = 0, wealth = 0\<rparr>]] 1 1 \<and>
   (\<exists>g9. generations 9
            [[\<lparr>age = 0, wealth = 0\<rparr>, \<lparr>age = 0, wealth = 0\<rparr>, \<lparr>age = 0, wealth = 0\<rparr>],
             [\<lparr>age = 0, wealth = 0\<rparr>, \<lparr>age = 1, wealth = 10\<rparr>, \<lparr>age = 0, wealth = 0\<rparr>],
             [\<lparr>age = 0, wealth = 0\<rparr>, \<lparr>age = 0, wealth = 0\<rparr>, \<lparr>age = 0, wealth = 0\<rparr>]]
            defaultWealthRules 10 = Inr g9 \<and>
          cell_at g9 1 1 = \<lparr>age = 10, wealth = 1\<rparr> \<and> others_dead g9 1 1) \<and>
   (\<exists>g10. generations 10
            [[\<lparr>age = 0, wealth = 0\<rparr>, \<lparr>age = 0, wealth = 0\<rparr>, \<lparr>age = 0, wealth = 0\<rparr>],
             [\<lparr>age = 0, wealth = 0\<rparr>, \<lparr>age = 1, wealth = 10\<rparr>, \<lparr>age = 0, wealth = 0\<rparr>],
             [\<lparr>age = 0, wealth = 0\<rparr>, \<lparr>age = 0, wealth = 0\<rparr>, \<lparr>age = 0, wealth = 0\<rparr>]]
            defaultWealthRules 10 = Inr g10 \<and>
          length g10 = 3 \<and> grid_width g10 = 3 \<and> \<not> hasAliveCells g10)"
proof -
  let ?g = "[[\<lparr>age = 0, wealth = 0\<rparr>, \<lparr>age = 0, wealth = 0\<rparr>, \<lparr>age = 0, wealth = 0\<rparr>],
             [\<lparr>age = 0, wealth = 0\<rparr>, \<lparr>age = 1, wealth = 10\<rparr>, \<lparr>age = 0, wealth = 0\<rparr>],
             [\<lparr>age = 0, wealth = 0\<rparr>, \<lparr>age = 0, wealth = 0\<rparr>, \<lparr>age = 0, wealth = 0\<rparr>]]"
  have a: "is_grid ?g" by (simp add: is_grid_def grid_width_def array_length_ok_def)
  have b: "in_bounds ?g 1 1" by (simp add: in_bounds_def grid_width_def)
  have c: "cell_at ?g 1 1 = \<lparr>age = 1, wealth = 10\<rparr>" by (simp add: cell_at_def)
  have d: "others_dead ?g 1 1" by (simp add: others_dead_def grid_width_def upt_rec)
  have l: "length ?g = 3" "grid_width ?g = 3" by (simp_all add: grid_width_def)
  from lone_cell_extinction [OF a b c d]
  obtain g9 g10 where
    g9: "generations 9 ?g defaultWealthRules 10 = Inr g9"
        "cell_at g9 1 1 = \<lparr>age = 1 + int 9, wealth = 10 - int 9\<rparr>" "others_dead g9 1 1"
    and g10: "generations 10 ?g defaultWealthRules 10 = Inr g10"
        "length g10 = length ?g" "grid_width g10 = grid_width ?g" "\<not> hasAliveCells g10"
    by blast
  have "\<exists>g9. generations 9 ?g defaultWealthRules 10 = Inr g9 \<and>
          cell_at g9 1 1 = \<lparr>age = 10, wealth = 1\<rparr> \<and> others_dead g9 1 1"
    using g9 by simp
  moreover have "\<exists>g10. generations 10 ?g defaultWealthRules 10 = Inr g10 \<and>
          length g10 = 3 \<and> grid_width g10 = 3 \<and> \<not> hasAliveCells g10"
    using g10 unfolding l by blast
  ultimately show ?thesis
    using a d by blast
qed

section \<open>The editing operations\<close>

lemma copy_cell_id: "copy_cell c = c"
  by (cases c) (simp add: copy_cell_def)

lemma copy_grid_id: "copy_grid g = g"
  by (simp add: copy_grid_def copy_cell_id map_idI)

lemma grid_width_update:
  "grid_width (g[i := (g ! i)[j := x]]) = grid_width g"
  by (cases g; cases i) (simp_all add: grid_width_def)

lemma is_grid_update:
  assumes "is_grid g"
  shows "is_grid (g[i := (g ! i)[j := x]])"
proof -
  have "length r = grid_width g" if "r \<in> set (g[i := (g ! i)[j := x]])" for r
  proof -
    from that obtain k where k: "k < length g" "r = g[i := (g ! i)[j := x]] ! k"
      by (auto simp add: in_set_conv_nth)
    then show ?thesis
      using is_grid_row_length [OF assms k(1)] by (cases "k = i") simp_all
  qed
  with assms show ?thesis
    by (simp add: is_grid_def grid_width_update list_all_iff)
qed

lemma cell_at_update_same:
  assumes "is_grid g" and "in_bounds g row col"
  shows "cell_at (g[nat row := (g ! nat row)[nat col := x]]) row col = x"
proof -
  from assms(2) have r: "nat row < length g" and c: "nat col < grid_width g"
    by (simp_all add: in_bounds_nat)
  from is_grid_row_length [OF assms(1) r] c show ?thesis
    using r by (simp add: cell_at_def)
qed

lemma cell_at_update_other:
  assumes "0 \<le> row" and "0 \<le> col" and "0 \<le> i" and "0 \<le> j" and "\<not> (i = row \<and> j = col)"
  shows "cell_at (g[nat row := (g ! nat row)[nat col := x]]) i j = cell_at g i j"
proof (cases "nat i = nat row")
  case False
  then show ?thesis by (simp add: cell_at_def)
next
  case True
  with assms have "nat j \<noteq> nat col" by auto
  show ?thesis
  proof (cases "nat row < length g")
    case True
    with \<open>nat i = nat row\<close> \<open>nat j \<noteq> nat col\<close> show ?thesis by (simp add: cell_at_def)
  next
    case False
    then have "g[nat row := (g ! nat row)[nat col := x]] = g"
      by (intro list_update_beyond) simp
    then show ?thesis by (simp only: cell_at_def)
  qed
qed

lemma js_index_cell:
  assumes "is_grid g" and "in_bounds g row col"
  shows "js_index g row = Some (g ! nat row)"
    and "js_index (g ! nat row) col = Some (cell_at g row col)"
    and "col < int (length (g ! nat row))"
proof -
  from assms(2) have r: "nat row < length g" by (simp add: in_bounds_nat)
  from assms(2) show "js_index g row = Some (g ! nat row)"
    by (simp add: js_index_def in_bounds_def)
  from assms(2) is_grid_row_length [OF assms(1) r]
  show "js_index (g ! nat row) col = Some (cell_at g row col)"
    by (simp add: js_index_def in_bounds_def cell_at_def)
  from assms(2) is_grid_row_length [OF assms(1) r]
  show "col < int (length (g ! nat row))"
    by (simp add: in_bounds_def)
qed

text \<open>
  C4. For a grid and a position inside it, setCell returns the reference it was given
  exactly when the cell is already alive or dead as asked, and the store is then
  unchanged. Otherwise it returns a reference that was not in the store, to a grid of the
  same shape whose cell at the position is the newborn cell with the starting wealth
  (for \<open>True\<close>) or the dead cell (for \<open>False\<close>), every other cell as in the input.
\<close>

theorem setCell_identity:
  assumes "grid < length h" and "is_grid (h ! grid)" and "in_bounds (h ! grid) row col"
  shows "\<exists>h' ref. setCell h grid row col v startingWealth = Inr (h', ref) \<and>
           (ref = grid \<longleftrightarrow> (age (cell_at (h ! grid) row col) > 0) = v) \<and>
           (ref = grid \<longrightarrow> h' = h) \<and>
           (ref \<noteq> grid \<longrightarrow>
              (\<exists>g'. h' = h @ [g'] \<and> ref = length h \<and>
                 is_grid g' \<and> length g' = length (h ! grid) \<and>
                 grid_width g' = grid_width (h ! grid) \<and>
                 cell_at g' row col =
                   (if v then \<lparr>age = 1, wealth = startingWealth\<rparr> else \<lparr>age = 0, wealth = 0\<rparr>) \<and>
                 (\<forall>i j. in_bounds (h ! grid) i j \<and> \<not> (i = row \<and> j = col) \<longrightarrow>
                    cell_at g' i j = cell_at (h ! grid) i j)))"
proof (cases "(age (cell_at (h ! grid) row col) > 0) = v")
  case True
  then have "setCell h grid row col v startingWealth = Inr (h, grid)"
    by (simp add: setCell_def js_index_cell [OF assms(2,3)])
  with True show ?thesis by simp
next
  case False
  let ?x = "if v then createAliveCell startingWealth else createEmptyCell"
  let ?g' = "(h ! grid)[nat row := (h ! grid ! nat row)[nat col := ?x]]"
  from assms(3) have nn: "0 \<le> row" "0 \<le> col" by (simp_all add: in_bounds_def)
  from False have "setCell h grid row col v startingWealth = Inr (h @ [?g'], length h)"
    using nn(2) by (simp add: setCell_def js_index_cell [OF assms(2,3)] copy_grid_id alloc_def Let_def)
  moreover have "length h \<noteq> grid" using assms(1) by simp
  moreover have "is_grid ?g'" using assms(2) by (rule is_grid_update)
  moreover have "length ?g' = length (h ! grid)" by simp
  moreover have "grid_width ?g' = grid_width (h ! grid)" by (rule grid_width_update)
  moreover have "cell_at ?g' row col =
      (if v then \<lparr>age = 1, wealth = startingWealth\<rparr> else \<lparr>age = 0, wealth = 0\<rparr>)"
    by (simp add: cell_at_update_same [OF assms(2,3)] createAliveCell_def createEmptyCell_def)
  moreover have "\<forall>i j. in_bounds (h ! grid) i j \<and> \<not> (i = row \<and> j = col) \<longrightarrow>
                    cell_at ?g' i j = cell_at (h ! grid) i j"
    using nn by (auto simp add: in_bounds_def intro!: cell_at_update_other)
  ultimately show ?thesis using False by blast
qed

text \<open>
  C7. For a grid and a position inside it, toggleCell returns a grid in which the cell
  at the position is the dead cell if it was alive and the newborn cell with the starting
  wealth if it was not, every other cell as in the input; the reference returned is
  always a new one, never that of the input, whatever the cells hold.
\<close>

theorem toggleCell_new_grid:
  assumes "grid < length h" and "is_grid (h ! grid)" and "in_bounds (h ! grid) row col"
  shows "\<exists>h' ref g'. toggleCell h grid row col startingWealth = Inr (h', ref) \<and>
           ref \<noteq> grid \<and> ref = length h \<and> h' = h @ [g'] \<and>
           is_grid g' \<and> length g' = length (h ! grid) \<and>
           grid_width g' = grid_width (h ! grid) \<and>
           cell_at g' row col =
             (if age (cell_at (h ! grid) row col) > 0 then \<lparr>age = 0, wealth = 0\<rparr>
              else \<lparr>age = 1, wealth = startingWealth\<rparr>) \<and>
           (\<forall>i j. in_bounds (h ! grid) i j \<and> \<not> (i = row \<and> j = col) \<longrightarrow>
              cell_at g' i j = cell_at (h ! grid) i j)"
proof -
  let ?x = "if age (cell_at (h ! grid) row col) > 0 then createEmptyCell
            else createAliveCell startingWealth"
  let ?g' = "(h ! grid)[nat row := (h ! grid ! nat row)[nat col := ?x]]"
  from assms(3) have nn: "0 \<le> row" "0 \<le> col" by (simp_all add: in_bounds_def)
  have "toggleCell h grid row col startingWealth = Inr (h @ [?g'], length h)"
    by (simp add: toggleCell_def js_index_cell [OF assms(2,3)] copy_grid_id alloc_def Let_def)
  moreover have "length h \<noteq> grid" using assms(1) by simp
  moreover have "is_grid ?g'" using assms(2) by (rule is_grid_update)
  moreover have "length ?g' = length (h ! grid)" by simp
  moreover have "grid_width ?g' = grid_width (h ! grid)" by (rule grid_width_update)
  moreover have "cell_at ?g' row col =
             (if age (cell_at (h ! grid) row col) > 0 then \<lparr>age = 0, wealth = 0\<rparr>
              else \<lparr>age = 1, wealth = startingWealth\<rparr>)"
    by (simp add: cell_at_update_same [OF assms(2,3)] createAliveCell_def createEmptyCell_def)
  moreover have "\<forall>i j. in_bounds (h ! grid) i j \<and> \<not> (i = row \<and> j = col) \<longrightarrow>
                    cell_at ?g' i j = cell_at (h ! grid) i j"
    using nn by (auto simp add: in_bounds_def intro!: cell_at_update_other)
  ultimately show ?thesis by blast
qed

theorem setCell_identity_witness:
  "(0::nat) < length [[[\<lparr>age = 0, wealth = 0\<rparr>, \<lparr>age = 5, wealth = 100\<rparr>]]] \<and>
   is_grid ([[[\<lparr>age = 0, wealth = 0\<rparr>, \<lparr>age = 5, wealth = 100\<rparr>]]] ! 0) \<and>
   in_bounds ([[[\<lparr>age = 0, wealth = 0\<rparr>, \<lparr>age = 5, wealth = 100\<rparr>]]] ! 0) 0 0 \<and>
   in_bounds ([[[\<lparr>age = 0, wealth = 0\<rparr>, \<lparr>age = 5, wealth = 100\<rparr>]]] ! 0) 0 1 \<and>
   (\<exists>h'. setCell [[[\<lparr>age = 0, wealth = 0\<rparr>, \<lparr>age = 5, wealth = 100\<rparr>]]] 0 0 1 True 10 =
            Inr (h', 0) \<and>
          h' = [[[\<lparr>age = 0, wealth = 0\<rparr>, \<lparr>age = 5, wealth = 100\<rparr>]]]) \<and>
   (\<exists>h' g'. setCell [[[\<lparr>age = 0, wealth = 0\<rparr>, \<lparr>age = 5, wealth = 100\<rparr>]]] 0 0 0 True 10 =
            Inr (h', 1) \<and>
          h' = [[[\<lparr>age = 0, wealth = 0\<rparr>, \<lparr>age = 5, wealth = 100\<rparr>]]] @ [g'] \<and>
          cell_at g' 0 0 = \<lparr>age = 1, wealth = 10\<rparr> \<and>
          cell_at g' 0 1 = \<lparr>age = 5, wealth = 100\<rparr>)"
proof -
  let ?g = "[[\<lparr>age = 0, wealth = 0\<rparr>, \<lparr>age = 5, wealth = 100\<rparr>]]"
  let ?h = "[?g]"
  have a: "(0::nat) < length ?h" by simp
  have b: "is_grid (?h ! 0)" by (simp add: is_grid_def grid_width_def array_length_ok_def)
  have c: "in_bounds (?h ! 0) 0 0" "in_bounds (?h ! 0) 0 1"
    by (simp_all add: in_bounds_def grid_width_def)
  have alive: "age (cell_at (?h ! 0) 0 1) > 0" "\<not> age (cell_at (?h ! 0) 0 0) > 0"
    by (simp_all add: cell_at_def)
  from setCell_identity [OF a b c(2), of True 10] alive(1)
  have same: "\<exists>h'. setCell ?h 0 0 1 True 10 = Inr (h', 0) \<and> h' = ?h"
    by auto
  from setCell_identity [OF a b c(1), of True 10]
  obtain h' ref where s: "setCell ?h 0 0 0 True 10 = Inr (h', ref)"
    and r: "ref = 0 \<longleftrightarrow> (age (cell_at (?h ! 0) 0 0) > 0) = True"
    and n: "ref \<noteq> 0 \<longrightarrow>
              (\<exists>g'. h' = ?h @ [g'] \<and> ref = length ?h \<and>
                 is_grid g' \<and> length g' = length (?h ! 0) \<and>
                 grid_width g' = grid_width (?h ! 0) \<and>
                 cell_at g' 0 0 =
                   (if True then \<lparr>age = 1, wealth = 10\<rparr> else \<lparr>age = 0, wealth = 0\<rparr>) \<and>
                 (\<forall>i j. in_bounds (?h ! 0) i j \<and> \<not> (i = 0 \<and> j = 0) \<longrightarrow>
                    cell_at g' i j = cell_at (?h ! 0) i j))"
    by blast
  from r alive(2) have "ref \<noteq> 0" by simp
  with n obtain g' where g': "h' = ?h @ [g']" "ref = length ?h"
      "cell_at g' 0 0 = (if True then \<lparr>age = 1, wealth = 10\<rparr> else \<lparr>age = 0, wealth = 0\<rparr>)"
      "\<forall>i j. in_bounds (?h ! 0) i j \<and> \<not> (i = 0 \<and> j = 0) \<longrightarrow>
                    cell_at g' i j = cell_at (?h ! 0) i j"
    by blast
  from g'(4) c(2) have "cell_at g' 0 1 = cell_at (?h ! 0) 0 1" by simp
  then have o: "cell_at g' 0 1 = \<lparr>age = 5, wealth = 100\<rparr>" by (simp add: cell_at_def)
  have "\<exists>h' g'. setCell ?h 0 0 0 True 10 = Inr (h', 1) \<and> h' = ?h @ [g'] \<and>
          cell_at g' 0 0 = \<lparr>age = 1, wealth = 10\<rparr> \<and>
          cell_at g' 0 1 = \<lparr>age = 5, wealth = 100\<rparr>"
    using s g'(1,2,3) o by simp
  with a b c same show ?thesis by blast
qed

theorem toggleCell_new_grid_witness:
  "(0::nat) < length [[[\<lparr>age = 0, wealth = 0\<rparr>, \<lparr>age = 5, wealth = 100\<rparr>]]] \<and>
   is_grid ([[[\<lparr>age = 0, wealth = 0\<rparr>, \<lparr>age = 5, wealth = 100\<rparr>]]] ! 0) \<and>
   in_bounds ([[[\<lparr>age = 0, wealth = 0\<rparr>, \<lparr>age = 5, wealth = 100\<rparr>]]] ! 0) 0 1 \<and>
   (\<exists>g'. toggleCell [[[\<lparr>age = 0, wealth = 0\<rparr>, \<lparr>age = 5, wealth = 100\<rparr>]]] 0 0 1 10 =
            Inr ([[[\<lparr>age = 0, wealth = 0\<rparr>, \<lparr>age = 5, wealth = 100\<rparr>]]] @ [g'], 1) \<and>
          cell_at g' 0 1 = \<lparr>age = 0, wealth = 0\<rparr> \<and>
          cell_at g' 0 0 = \<lparr>age = 0, wealth = 0\<rparr>)"
proof -
  let ?g = "[[\<lparr>age = 0, wealth = 0\<rparr>, \<lparr>age = 5, wealth = 100\<rparr>]]"
  let ?h = "[?g]"
  have a: "(0::nat) < length ?h" by simp
  have b: "is_grid (?h ! 0)" by (simp add: is_grid_def grid_width_def array_length_ok_def)
  have c: "in_bounds (?h ! 0) 0 1" "in_bounds (?h ! 0) 0 0"
    by (simp_all add: in_bounds_def grid_width_def)
  from toggleCell_new_grid [OF a b c(1), of 10]
  obtain h' ref g' where t: "toggleCell ?h 0 0 1 10 = Inr (h', ref)"
      "ref = length ?h" "h' = ?h @ [g']"
      "cell_at g' 0 1 =
             (if age (cell_at (?h ! 0) 0 1) > 0 then \<lparr>age = 0, wealth = 0\<rparr>
              else \<lparr>age = 1, wealth = 10\<rparr>)"
      "\<forall>i j. in_bounds (?h ! 0) i j \<and> \<not> (i = 0 \<and> j = 1) \<longrightarrow>
              cell_at g' i j = cell_at (?h ! 0) i j"
    by blast
  from t(5) c(2) have "cell_at g' 0 0 = cell_at (?h ! 0) 0 0" by simp
  then have o: "cell_at g' 0 0 = \<lparr>age = 0, wealth = 0\<rparr>" by (simp add: cell_at_def)
  from t(4) have n: "cell_at g' 0 1 = \<lparr>age = 0, wealth = 0\<rparr>" by (simp add: cell_at_def)
  have "\<exists>g'. toggleCell ?h 0 0 1 10 = Inr (?h @ [g'], 1) \<and>
          cell_at g' 0 1 = \<lparr>age = 0, wealth = 0\<rparr> \<and>
          cell_at g' 0 0 = \<lparr>age = 0, wealth = 0\<rparr>"
    using t(1,2,3) o n by simp
  with a b c show ?thesis by blast
qed

section \<open>Resizing and randomizing\<close>

lemma nat_min_int: "0 \<le> n \<Longrightarrow> nat (min (int k) n) = min k (nat n)"
  by (cases "int k \<le> n") (simp_all add: min_def le_nat_iff nat_le_iff)

lemma createEmptyGrid_ok:
  assumes "array_length_ok width" and "array_length_ok height"
  shows "createEmptyGrid width height =
           Inr (replicate (nat height) (replicate (nat width) createEmptyCell))"
  using assms by (simp add: createEmptyGrid_def)

lemma resizeGrid_closed_form:
  assumes "is_grid g" and "array_length_ok newWidth" and "array_length_ok newHeight"
  shows "resizeGrid g newWidth newHeight =
           Inr (map (\<lambda>i. map (\<lambda>j. g ! i ! j) [0..<min (grid_width g) (nat newWidth)] @
                          replicate (nat newWidth - min (grid_width g) (nat newWidth)) createEmptyCell)
                    [0..<min (length g) (nat newHeight)] @
                replicate (nat newHeight - min (length g) (nat newHeight))
                  (replicate (nat newWidth) createEmptyCell))"
proof -
  let ?W = "nat newWidth" and ?H = "nat newHeight"
  let ?rl = "min (length g) ?H" and ?cl = "min (grid_width g) ?W"
  let ?E = "replicate ?H (replicate ?W createEmptyCell)"
  let ?body = "\<lambda>row col. case js_index (g ! row) (int col) of
                              None \<Rightarrow> Inl OutsideModel
                            | Some c \<Rightarrow> Inr (copy_cell c)"
  have nn: "0 \<le> newWidth" "0 \<le> newHeight"
    using assms(2,3) by (simp_all add: array_length_ok_def)
  have ow: "(case js_index g 0 of None \<Rightarrow> 0 | Some row0 \<Rightarrow> int (length row0)) = int (grid_width g)"
    by (cases g) (simp_all add: js_index_def grid_width_def)
  have lim: "nat (min (int (length g)) newHeight) = ?rl" "nat (min (int (grid_width g)) newWidth) = ?cl"
    using nn by (simp_all add: nat_min_int)
  have unf: "resizeGrid g newWidth newHeight = row_loop ?body ?rl ?cl 0 ?E"
    by (simp add: resizeGrid_def createEmptyGrid_ok [OF assms(2,3)] ow lim Let_def)
  have body: "?body i j = Inr (g ! i ! j)" if "i < ?rl" "j < ?cl" for i j
  proof -
    from that(1) have "length (g ! i) = grid_width g"
      using assms(1) by (simp add: is_grid_row_length)
    with that(2) have "js_index (g ! i) (int j) = Some (g ! i ! j)"
      by (simp add: js_index_def)
    then show ?thesis by (simp add: copy_cell_id)
  qed
  have "row_loop ?body ?rl ?cl 0 ?E =
          Inr (take 0 ?E @
               map (\<lambda>i. map (\<lambda>j. g ! i ! j) [0..<?cl] @ drop ?cl (?E ! i)) [0..<?rl] @
               drop ?rl ?E)"
    by (rule row_loop_fills) (simp_all add: body)
  moreover have "map (\<lambda>i. map (\<lambda>j. g ! i ! j) [0..<?cl] @ drop ?cl (?E ! i)) [0..<?rl] =
                 map (\<lambda>i. map (\<lambda>j. g ! i ! j) [0..<?cl] @ replicate (?W - ?cl) createEmptyCell) [0..<?rl]"
    by (rule map_cong) simp_all
  ultimately show ?thesis
    unfolding unf by simp
qed

text \<open>
  C5. resizeGrid returns a grid of \<open>newHeight\<close> rows and \<open>newWidth\<close> columns. Inside the
  rectangle of the first \<open>min oldHeight newHeight\<close> rows and
  \<open>min oldWidth newWidth\<close> columns each cell has the age and wealth of the input cell at
  the same position; every cell outside it is dead. The dimensions are lengths an array
  can have.
\<close>

theorem resizeGrid_overlap:
  assumes "is_grid g" and "array_length_ok newWidth" and "array_length_ok newHeight"
  shows "\<exists>g'. resizeGrid g newWidth newHeight = Inr g' \<and>
           int (length g') = newHeight \<and> list_all (\<lambda>r. int (length r) = newWidth) g' \<and>
           (\<forall>r c. 0 \<le> r \<and> r < newHeight \<and> 0 \<le> c \<and> c < newWidth \<longrightarrow>
              cell_at g' r c =
                (if r < min (int (length g)) newHeight \<and> c < min (int (grid_width g)) newWidth
                 then cell_at g r c else \<lparr>age = 0, wealth = 0\<rparr>))"
proof -
  let ?W = "nat newWidth" and ?H = "nat newHeight"
  let ?rl = "min (length g) ?H" and ?cl = "min (grid_width g) ?W"
  let ?row = "\<lambda>i. map (\<lambda>j. g ! i ! j) [0..<?cl] @ replicate (?W - ?cl) createEmptyCell"
  let ?g' = "map ?row [0..<?rl] @ replicate (?H - ?rl) (replicate ?W createEmptyCell)"
  have nn: "0 \<le> newWidth" "0 \<le> newHeight"
    using assms(2,3) by (simp_all add: array_length_ok_def)
  have res: "resizeGrid g newWidth newHeight = Inr ?g'"
    using assms by (rule resizeGrid_closed_form)
  have len: "int (length ?g') = newHeight" using nn by simp
  have rows: "list_all (\<lambda>r. int (length r) = newWidth) ?g'"
    using nn by (auto simp add: list_all_iff)
  have cell: "cell_at ?g' r c =
                (if r < min (int (length g)) newHeight \<and> c < min (int (grid_width g)) newWidth
                 then cell_at g r c else \<lparr>age = 0, wealth = 0\<rparr>)"
    if "0 \<le> r \<and> r < newHeight \<and> 0 \<le> c \<and> c < newWidth" for r c
  proof -
    from that have r: "nat r < ?H" and c: "nat c < ?W" by simp_all
    have cond: "(r < min (int (length g)) newHeight \<and> c < min (int (grid_width g)) newWidth) =
                (nat r < ?rl \<and> nat c < ?cl)"
      using that by (simp add: nat_less_iff)
    have "?g' ! nat r ! nat c =
            (if nat r < ?rl \<and> nat c < ?cl then g ! nat r ! nat c else createEmptyCell)"
    proof (cases "nat r < ?rl")
      case True
      then have row: "?g' ! nat r = ?row (nat r)" by (simp add: nth_append)
      show ?thesis
      proof (cases "nat c < ?cl")
        case True
        with \<open>nat r < ?rl\<close> show ?thesis unfolding row by (simp add: nth_append)
      next
        case False
        then have "nat c - ?cl < ?W - ?cl" using c by (intro diff_less_mono) simp_all
        with False show ?thesis unfolding row by (simp add: nth_append)
      qed
    next
      case False
      then have "nat r - ?rl < ?H - ?rl" using r by (intro diff_less_mono) simp_all
      with False have "?g' ! nat r = replicate ?W createEmptyCell"
        by (simp add: nth_append)
      with c have e: "?g' ! nat r ! nat c = createEmptyCell" by simp
      show ?thesis by (simp only: e False simp_thms if_False)
    qed
    then show ?thesis
      unfolding cond cell_at_def by (simp add: createEmptyCell_def)
  qed
  from res len rows cell show ?thesis by blast
qed

theorem resizeGrid_overlap_witness:
  "is_grid [[\<lparr>age = 1, wealth = 10\<rparr>, \<lparr>age = 0, wealth = 0\<rparr>],
            [\<lparr>age = 0, wealth = 0\<rparr>, \<lparr>age = 3, wealth = 30\<rparr>]] \<and>
   array_length_ok 3 \<and> array_length_ok 2 \<and>
   (\<exists>g'. resizeGrid [[\<lparr>age = 1, wealth = 10\<rparr>, \<lparr>age = 0, wealth = 0\<rparr>],
                      [\<lparr>age = 0, wealth = 0\<rparr>, \<lparr>age = 3, wealth = 30\<rparr>]] 3 2 = Inr g' \<and>
          int (length g') = 2 \<and> list_all (\<lambda>r. int (length r) = 3) g' \<and>
          cell_at g' 1 1 = \<lparr>age = 3, wealth = 30\<rparr> \<and>
          cell_at g' 1 2 = \<lparr>age = 0, wealth = 0\<rparr>)"
proof -
  let ?g = "[[\<lparr>age = 1, wealth = 10\<rparr>, \<lparr>age = 0, wealth = 0\<rparr>],
             [\<lparr>age = 0, wealth = 0\<rparr>, \<lparr>age = 3, wealth = 30\<rparr>]]"
  have a: "is_grid ?g" by (simp add: is_grid_def grid_width_def array_length_ok_def)
  have b: "array_length_ok 3" "array_length_ok 2" by (simp_all add: array_length_ok_def)
  from resizeGrid_overlap [OF a b]
  obtain g' where g': "resizeGrid ?g 3 2 = Inr g'" "int (length g') = 2"
      "list_all (\<lambda>r. int (length r) = 3) g'"
    and cell: "\<And>r c. 0 \<le> r \<and> r < 2 \<and> 0 \<le> c \<and> c < 3 \<Longrightarrow>
              cell_at g' r c =
                (if r < min (int (length ?g)) 2 \<and> c < min (int (grid_width ?g)) 3
                 then cell_at ?g r c else \<lparr>age = 0, wealth = 0\<rparr>)"
    by blast
  have "cell_at g' 1 1 = \<lparr>age = 3, wealth = 30\<rparr>"
    using cell [of 1 1] by (simp add: grid_width_def cell_at_def)
  moreover have "cell_at g' 1 2 = \<lparr>age = 0, wealth = 0\<rparr>"
    using cell [of 1 2] by (simp add: grid_width_def)
  ultimately show ?thesis
    using a b g' by blast
qed

lemma nth_draw_add:
  "nth_draw randomFn s (m + k) = nth_draw randomFn (after_draws randomFn s m) k"
  by (induction m arbitrary: s) simp_all

lemma after_draws_add:
  "after_draws randomFn s (m + k) = after_draws randomFn (after_draws randomFn s m) k"
  by (induction m arbitrary: s) simp_all

lemma random_row_draws:
  "random_row randomFn density startingWealth n s =
     (map (\<lambda>k. if nth_draw randomFn s k < density then createAliveCell startingWealth
                 else createEmptyCell) [0..<n],
      after_draws randomFn s n)"
proof (induction n arbitrary: s)
  case 0
  show ?case by simp
next
  case (Suc n)
  have "[0..<Suc n] = 0 # map Suc [0..<n]"
    by (simp add: upt_conv_Cons map_Suc_upt del: upt_Suc)
  then show ?case
    by (simp add: Suc.IH split_beta Let_def comp_def del: upt_Suc)
qed

lemma random_rows_draws:
  "random_rows randomFn density startingWealth width n s =
     (map (\<lambda>r. map (\<lambda>c. if nth_draw randomFn s (r * width + c) < density
                           then createAliveCell startingWealth else createEmptyCell)
                     [0..<width]) [0..<n],
      after_draws randomFn s (n * width))"
proof (induction n arbitrary: s)
  case 0
  show ?case by simp
next
  case (Suc n)
  have u: "[0..<Suc n] = 0 # map Suc [0..<n]"
    by (simp add: upt_conv_Cons map_Suc_upt del: upt_Suc)
  have d: "nth_draw randomFn (after_draws randomFn s width) (r * width + c) =
           nth_draw randomFn s (Suc r * width + c)" for r c
    using nth_draw_add [of randomFn s width "r * width + c"] by (simp add: add.assoc)
  have a: "after_draws randomFn (after_draws randomFn s width) (n * width) =
           after_draws randomFn s (Suc n * width)"
    using after_draws_add [of randomFn s width "n * width"] by simp
  show ?case
    unfolding u
    by (simp add: Suc.IH random_row_draws split_beta Let_def comp_def d a del: upt_Suc mult_Suc)
qed

text \<open>
  C6. randomizeGrid returns a grid of \<open>height\<close> rows and \<open>width\<close> columns and makes one draw
  per cell, row by row: the cell at \<open>(r, c)\<close> is the newborn cell with the starting wealth
  exactly when draw number \<open>r * width + c\<close> is strictly below the density, and the dead
  cell otherwise. When every draw lies in \<open>[0, 1)\<close>, density 0 gives a grid of dead cells
  and density 1 a grid of newborn cells, whatever the draws are.
\<close>

theorem randomizeGrid_threshold:
  assumes "array_length_ok width" and "array_length_ok height"
  shows "\<exists>g s'. randomizeGrid width height density startingWealth randomFn s = Inr (g, s') \<and>
           int (length g) = height \<and> list_all (\<lambda>r. int (length r) = width) g \<and>
           s' = after_draws randomFn s (nat height * nat width) \<and>
           (\<forall>r c. r < nat height \<and> c < nat width \<longrightarrow>
              g ! r ! c =
                (if nth_draw randomFn s (r * nat width + c) < density
                 then \<lparr>age = 1, wealth = startingWealth\<rparr> else \<lparr>age = 0, wealth = 0\<rparr>)) \<and>
           ((\<forall>k < nat height * nat width.
                0 \<le> nth_draw randomFn s k \<and> nth_draw randomFn s k < 1) \<longrightarrow>
              (density = 0 \<longrightarrow>
                 (\<forall>r c. r < nat height \<and> c < nat width \<longrightarrow> g ! r ! c = \<lparr>age = 0, wealth = 0\<rparr>)) \<and>
              (density = 1 \<longrightarrow>
                 (\<forall>r c. r < nat height \<and> c < nat width \<longrightarrow>
                    g ! r ! c = \<lparr>age = 1, wealth = startingWealth\<rparr>)))"
proof -
  let ?W = "nat width" and ?H = "nat height"
  let ?cell = "\<lambda>r c. if nth_draw randomFn s (r * ?W + c) < density
                       then createAliveCell startingWealth else createEmptyCell"
  let ?g = "map (\<lambda>r. map (?cell r) [0..<?W]) [0..<?H]"
  have nn: "0 \<le> width" "0 \<le> height"
    using assms by (simp_all add: array_length_ok_def)
  have res: "randomizeGrid width height density startingWealth randomFn s =
               Inr (?g, after_draws randomFn s (?H * ?W))"
    using assms by (cases "height = 0") (simp_all add: randomizeGrid_def random_rows_draws)
  have len: "int (length ?g) = height" using nn by simp
  have rows: "list_all (\<lambda>r. int (length r) = width) ?g"
    using nn by (simp add: list_all_iff)
  have cell: "?g ! r ! c =
                (if nth_draw randomFn s (r * ?W + c) < density
                 then \<lparr>age = 1, wealth = startingWealth\<rparr> else \<lparr>age = 0, wealth = 0\<rparr>)"
    if "r < ?H \<and> c < ?W" for r c
    using that by (simp add: createAliveCell_def createEmptyCell_def)
  have idx: "r * ?W + c < ?H * ?W" if "r < ?H" "c < ?W" for r c
  proof -
    have "r * ?W + c < r * ?W + ?W" using that(2) by simp
    also have "\<dots> = Suc r * ?W" by simp
    also have "\<dots> \<le> ?H * ?W" using that(1) by (intro mult_le_mono1) simp
    finally show ?thesis .
  qed
  have ext: "(density = 0 \<longrightarrow>
                 (\<forall>r c. r < ?H \<and> c < ?W \<longrightarrow> ?g ! r ! c = \<lparr>age = 0, wealth = 0\<rparr>)) \<and>
              (density = 1 \<longrightarrow>
                 (\<forall>r c. r < ?H \<and> c < ?W \<longrightarrow>
                    ?g ! r ! c = \<lparr>age = 1, wealth = startingWealth\<rparr>))"
    if range: "\<forall>k < ?H * ?W. 0 \<le> nth_draw randomFn s k \<and> nth_draw randomFn s k < 1"
  proof (intro conjI impI allI)
    fix r c
    assume "density = 0" and rc: "r < ?H \<and> c < ?W"
    from range idx rc have "0 \<le> nth_draw randomFn s (r * ?W + c)" by blast
    with \<open>density = 0\<close> show "?g ! r ! c = \<lparr>age = 0, wealth = 0\<rparr>"
      unfolding cell [OF rc] by simp
  next
    fix r c
    assume "density = 1" and rc: "r < ?H \<and> c < ?W"
    from range idx rc have "nth_draw randomFn s (r * ?W + c) < 1" by blast
    with \<open>density = 1\<close> show "?g ! r ! c = \<lparr>age = 1, wealth = startingWealth\<rparr>"
      unfolding cell [OF rc] by simp
  qed
  from res len rows cell ext show ?thesis by blast
qed

theorem randomizeGrid_threshold_witness:
  "array_length_ok 2 \<and>
   (\<exists>g s'. randomizeGrid 2 2 (1/2) 10
              (\<lambda>calls::nat. (if even calls then 4/5 else 1/5, Suc calls)) 0 =
              Inr (g, s') \<and>
           s' = 4 \<and> g ! 0 ! 1 = \<lparr>age = 1, wealth = 10\<rparr> \<and> g ! 1 ! 0 = \<lparr>age = 0, wealth = 0\<rparr>) \<and>
   (\<exists>g s'. randomizeGrid 2 2 0 10
              (\<lambda>calls::nat. (if even calls then 4/5 else 1/5, Suc calls)) 0 =
              Inr (g, s') \<and>
           g ! 0 ! 1 = \<lparr>age = 0, wealth = 0\<rparr>) \<and>
   (\<exists>g s'. randomizeGrid 2 2 1 10
              (\<lambda>calls::nat. (if even calls then 4/5 else 1/5, Suc calls)) 0 =
              Inr (g, s') \<and>
           g ! 1 ! 0 = \<lparr>age = 1, wealth = 10\<rparr>)"
proof -
  let ?rnd = "\<lambda>calls::nat. (if even calls then 4/5 else 1/5 :: real, Suc calls)"
  have ok: "array_length_ok 2" by (simp add: array_length_ok_def)
  have range: "0 \<le> nth_draw ?rnd s k \<and> nth_draw ?rnd s k < 1" for s k
    by (induction k arbitrary: s) simp_all
  have d: "nth_draw ?rnd 0 (0 * nat 2 + 1) = 1/5" "nth_draw ?rnd 0 (1 * nat 2 + 0) = 4/5"
    by (simp_all add: eval_nat_numeral)
  have s4: "after_draws ?rnd 0 (nat 2 * nat 2) = 4"
    by (simp add: eval_nat_numeral)
  have ix: "(0::nat) < nat 2 \<and> (1::nat) < nat 2" "(1::nat) < nat 2 \<and> (0::nat) < nat 2" by simp_all
  from randomizeGrid_threshold [OF ok ok, of "1/2" 10 ?rnd 0]
  obtain g s' where h: "randomizeGrid 2 2 (1/2) 10 ?rnd 0 = Inr (g, s')"
      "s' = after_draws ?rnd 0 (nat 2 * nat 2)"
    and c: "\<And>r c. r < nat 2 \<and> c < nat 2 \<Longrightarrow>
              g ! r ! c =
                (if nth_draw ?rnd 0 (r * nat 2 + c) < 1/2
                 then \<lparr>age = 1, wealth = 10\<rparr> else \<lparr>age = 0, wealth = 0\<rparr>)"
    by blast
  have half: "\<exists>g s'. randomizeGrid 2 2 (1/2) 10 ?rnd 0 = Inr (g, s') \<and>
           s' = 4 \<and> g ! 0 ! 1 = \<lparr>age = 1, wealth = 10\<rparr> \<and> g ! 1 ! 0 = \<lparr>age = 0, wealth = 0\<rparr>"
    using h c [OF ix(1)] c [OF ix(2)] unfolding d s4 by simp
  from randomizeGrid_threshold [OF ok ok, of 0 10 ?rnd 0] range
  obtain g0 s0 where h0: "randomizeGrid 2 2 0 10 ?rnd 0 = Inr (g0, s0)"
    and c0: "\<And>r c. r < nat 2 \<and> c < nat 2 \<Longrightarrow> g0 ! r ! c = \<lparr>age = 0, wealth = 0\<rparr>"
    by blast
  have zero: "\<exists>g s'. randomizeGrid 2 2 0 10 ?rnd 0 = Inr (g, s') \<and>
           g ! 0 ! 1 = \<lparr>age = 0, wealth = 0\<rparr>"
    using h0 c0 [OF ix(1)] by blast
  from randomizeGrid_threshold [OF ok ok, of 1 10 ?rnd 0] range
  obtain g1 s1 where h1: "randomizeGrid 2 2 1 10 ?rnd 0 = Inr (g1, s1)"
    and c1: "\<And>r c. r < nat 2 \<and> c < nat 2 \<Longrightarrow> g1 ! r ! c = \<lparr>age = 1, wealth = 10\<rparr>"
    by blast
  have one: "\<exists>g s'. randomizeGrid 2 2 1 10 ?rnd 0 = Inr (g, s') \<and>
           g ! 1 ! 0 = \<lparr>age = 1, wealth = 10\<rparr>"
    using h1 c1 [OF ix(2)] by blast
  from ok half zero one show ?thesis by blast
qed

section \<open>The cell invariant\<close>

lemma cell_inv_constructors: "cell_inv createEmptyCell" "cell_inv (createAliveCell startingWealth)"
  by (simp_all add: cell_inv_def createEmptyCell_def createAliveCell_def)

lemma grid_inv_cell:
  "grid_inv g \<Longrightarrow> i < length g \<Longrightarrow> j < length (g ! i) \<Longrightarrow> cell_inv (g ! i ! j)"
  by (simp add: grid_inv_def list_all_length)

lemma grid_inv_update:
  assumes "grid_inv G" and "cell_inv x"
  shows "grid_inv (G[i := (G ! i)[j := x]])"
proof (cases "i < length G")
  case False
  then have "G[i := (G ! i)[j := x]] = G" by (intro list_update_beyond) simp
  with assms(1) show ?thesis by simp
next
  case True
  have "list_all cell_inv r" if "r \<in> set (G[i := (G ! i)[j := x]])" for r
  proof -
    from that have "r = (G ! i)[j := x] \<or> r \<in> set G"
      using set_update_subset_insert [of G i "(G ! i)[j := x]"] by auto
    then show ?thesis
    proof
      assume r: "r = (G ! i)[j := x]"
      have "list_all cell_inv (G ! i)"
        using assms(1) True by (simp add: grid_inv_def list_all_length)
      then have "\<forall>c \<in> insert x (set (G ! i)). cell_inv c"
        using assms(2) by (simp add: list_all_iff)
      then show ?thesis
        unfolding r list_all_iff using set_update_subset_insert [of "G ! i" j x] by blast
    next
      assume "r \<in> set G"
      with assms(1) show ?thesis by (simp add: grid_inv_def list_all_iff)
    qed
  qed
  then show ?thesis by (simp add: grid_inv_def list_all_iff)
qed

lemma col_loop_inv:
  assumes "grid_inv G" and "\<And>j cell. j < limit \<Longrightarrow> body j = Inr cell \<Longrightarrow> cell_inv cell"
    and "col_loop body limit row col G = Inr G'"
  shows "grid_inv G'"
  using assms
proof (induction body limit row col G rule: col_loop.induct)
  case (1 body limit row col newGrid)
  show ?case
  proof (cases "col < limit")
    case False
    with "1.prems"(1,3) show ?thesis by (simp add: col_loop_done)
  next
    case True
    show ?thesis
    proof (cases "body col")
      case (Inl e)
      with True "1.prems"(3) show ?thesis
        by (simp add: col_loop.simps [of body limit row col newGrid])
    next
      case (Inr cell)
      have c: "cell_inv cell" using True Inr by (rule "1.prems"(2))
      have "col_loop body limit row (Suc col) (newGrid[row := (newGrid ! row)[col := cell]]) = Inr G'"
        using "1.prems"(3) by (simp add: col_loop_step [where body = body and col = col, OF True Inr])
      with "1.IH" [OF True Inr grid_inv_update [OF "1.prems"(1) c]] "1.prems"(2)
      show ?thesis by blast
    qed
  qed
qed

lemma row_loop_inv:
  assumes "grid_inv G"
    and "\<And>i j cell. i < rowLimit \<Longrightarrow> j < colLimit \<Longrightarrow> body i j = Inr cell \<Longrightarrow> cell_inv cell"
    and "row_loop body rowLimit colLimit row G = Inr G'"
  shows "grid_inv G'"
  using assms
proof (induction body rowLimit colLimit row G rule: row_loop.induct)
  case (1 body rowLimit colLimit row newGrid)
  show ?case
  proof (cases "row < rowLimit")
    case False
    with "1.prems"(1,3) show ?thesis by (simp add: row_loop_done)
  next
    case True
    show ?thesis
    proof (cases "col_loop (body row) colLimit row 0 newGrid")
      case (Inl e)
      with True "1.prems"(3) show ?thesis
        by (simp add: row_loop.simps [of body rowLimit colLimit row newGrid])
    next
      case (Inr filled)
      have f: "grid_inv filled"
        using "1.prems"(1) "1.prems"(2) [OF True] Inr by (rule col_loop_inv)
      have "row_loop body rowLimit colLimit (Suc row) filled = Inr G'"
        using "1.prems"(3) by (simp add: row_loop_step [where body = body and row = row, OF True Inr])
      with "1.IH" [OF True Inr f] "1.prems"(2) show ?thesis by blast
    qed
  qed
qed

lemma createEmptyGrid_inv:
  assumes "createEmptyGrid width height = Inr g"
  shows "grid_inv g"
proof -
  have "grid_inv (replicate n (replicate m createEmptyCell))" for n m
    by (simp add: grid_inv_def list_all_iff cell_inv_constructors)
  moreover have "grid_inv []" by (simp add: grid_inv_def)
  ultimately show ?thesis
    using assms by (auto simp add: createEmptyGrid_def split: if_splits)
qed

lemma nextCell_inv:
  assumes "nextCell g wealthRules startingWealth i j = Inr cell"
  shows "cell_inv cell"
  using assms
  by (auto simp add: nextCell_def Let_def cell_inv_def createEmptyCell_def
      split: sum.splits option.splits if_splits)

lemma computeNextGeneration_inv:
  assumes "computeNextGeneration g wealthRules startingWealth = Inr g'"
  shows "grid_inv g'"
proof (cases g)
  case Nil
  with assms show ?thesis by (simp add: computeNextGeneration_def)
next
  case (Cons row0 rest)
  with assms obtain newGrid where
    e: "createEmptyGrid (int (length row0)) (int (length g)) = Inr newGrid" and
    l: "row_loop (nextCell g wealthRules startingWealth) (length g) (length row0) 0 newGrid = Inr g'"
    by (auto simp add: computeNextGeneration_def Let_def split: sum.splits)
  from createEmptyGrid_inv [OF e] nextCell_inv l show ?thesis
    by (rule row_loop_inv)
qed

lemma resizeGrid_inv:
  assumes "grid_inv g" and "resizeGrid g newWidth newHeight = Inr g'"
  shows "grid_inv g'"
proof -
  let ?body = "\<lambda>row col. case js_index (g ! row) (int col) of
                              None \<Rightarrow> Inl OutsideModel
                            | Some c \<Rightarrow> Inr (copy_cell c)"
  let ?oldWidth = "case js_index g 0 of None \<Rightarrow> 0 | Some row0 \<Rightarrow> int (length row0)"
  let ?rl = "nat (min (int (length g)) newHeight)" and ?cl = "nat (min ?oldWidth newWidth)"
  from assms(2) obtain newGrid where
    e: "createEmptyGrid newWidth newHeight = Inr newGrid" and
    l: "row_loop ?body ?rl ?cl 0 newGrid = Inr g'"
    by (auto simp add: resizeGrid_def Let_def split: sum.splits)
  have body: "cell_inv cell" if "i < ?rl" "j < ?cl" "?body i j = Inr cell" for i j cell
  proof -
    from that(1) have i: "i < length g" by simp
    from that(3) have "j < length (g ! i)" "cell = g ! i ! j"
      by (auto simp add: js_index_def copy_cell_id split: if_splits)
    with grid_inv_cell [OF assms(1) i] show ?thesis by simp
  qed
  from createEmptyGrid_inv [OF e] body l show ?thesis
    by (rule row_loop_inv)
qed

lemma toggleCell_inv:
  assumes "grid_inv (h ! grid)" and "toggleCell h grid row col startingWealth = Inr (h', ref)"
  shows "grid_inv (h' ! ref)"
  using assms
  by (auto simp add: toggleCell_def copy_grid_id alloc_def Let_def js_index_def
      cell_inv_constructors split: option.splits if_splits intro!: grid_inv_update)

lemma setCell_inv:
  assumes "grid_inv (h ! grid)" and "setCell h grid row col v startingWealth = Inr (h', ref)"
  shows "grid_inv (h' ! ref)"
  using assms
  by (auto simp add: setCell_def copy_grid_id alloc_def Let_def js_index_def
      cell_inv_constructors split: option.splits if_splits intro!: grid_inv_update)

lemma randomizeGrid_inv:
  assumes "randomizeGrid width height density startingWealth randomFn s = Inr (g, s')"
  shows "grid_inv g"
proof -
  have "grid_inv (fst (random_rows randomFn density startingWealth (nat width) (nat height) s))"
    by (auto simp add: random_rows_draws grid_inv_def list_all_iff cell_inv_constructors)
  moreover have "grid_inv []" by (simp add: grid_inv_def)
  ultimately show ?thesis
    using assms by (auto simp add: randomizeGrid_def split: if_splits)
qed

text \<open>
  C9. The cell invariant (the age is not negative, and a cell of age 0 has wealth 0)
  holds of every cell of a grid made by createEmptyGrid or randomizeGrid, for any starting
  wealth; and when it holds of every cell of the input grid, it holds of every cell of
  the grid returned by computeNextGeneration, toggleCell, setCell and resizeGrid.
\<close>

theorem cell_invariant_kept:
  "(createEmptyGrid width height = Inr g0 \<longrightarrow> grid_inv g0) \<and>
   (randomizeGrid width height density startingWealth randomFn s = Inr (g1, s1) \<longrightarrow> grid_inv g1) \<and>
   (grid_inv g \<and> computeNextGeneration g wealthRules startingWealth = Inr g2 \<longrightarrow> grid_inv g2) \<and>
   (grid_inv (h ! grid) \<and> toggleCell h grid row col startingWealth = Inr (h3, ref3) \<longrightarrow>
      grid_inv (h3 ! ref3)) \<and>
   (grid_inv (h ! grid) \<and> setCell h grid row col v startingWealth = Inr (h4, ref4) \<longrightarrow>
      grid_inv (h4 ! ref4)) \<and>
   (grid_inv g \<and> resizeGrid g newWidth newHeight = Inr g5 \<longrightarrow> grid_inv g5)"
proof (intro conjI impI)
  assume "createEmptyGrid width height = Inr g0"
  then show "grid_inv g0" by (rule createEmptyGrid_inv)
next
  assume "randomizeGrid width height density startingWealth randomFn s = Inr (g1, s1)"
  then show "grid_inv g1" by (rule randomizeGrid_inv)
next
  assume "grid_inv g \<and> computeNextGeneration g wealthRules startingWealth = Inr g2"
  then show "grid_inv g2" by (blast intro: computeNextGeneration_inv)
next
  assume "grid_inv (h ! grid) \<and> toggleCell h grid row col startingWealth = Inr (h3, ref3)"
  then show "grid_inv (h3 ! ref3)" by (blast intro: toggleCell_inv)
next
  assume "grid_inv (h ! grid) \<and> setCell h grid row col v startingWealth = Inr (h4, ref4)"
  then show "grid_inv (h4 ! ref4)" by (blast intro: setCell_inv)
next
  assume "grid_inv g \<and> resizeGrid g newWidth newHeight = Inr g5"
  then show "grid_inv g5" by (blast intro: resizeGrid_inv)
qed

theorem cell_invariant_kept_witness:
  "grid_inv [[\<lparr>age = 5, wealth = 3\<rparr>, \<lparr>age = 0, wealth = 0\<rparr>]] \<and>
   (\<exists>g0. createEmptyGrid 2 1 = Inr g0 \<and> grid_inv g0) \<and>
   (\<exists>g1 s1. randomizeGrid 2 1 (1/2) 10
               (\<lambda>calls::nat. (if even calls then 4/5 else 1/5, Suc calls)) 0 = Inr (g1, s1) \<and>
            grid_inv g1) \<and>
   (\<exists>g2. computeNextGeneration [[\<lparr>age = 5, wealth = 3\<rparr>, \<lparr>age = 0, wealth = 0\<rparr>]]
            defaultWealthRules 10 = Inr g2 \<and> grid_inv g2) \<and>
   (\<exists>h3 ref3. toggleCell [[[\<lparr>age = 5, wealth = 3\<rparr>, \<lparr>age = 0, wealth = 0\<rparr>]]] 0 0 0 10 =
                 Inr (h3, ref3) \<and> grid_inv (h3 ! ref3)) \<and>
   (\<exists>h4 ref4. setCell [[[\<lparr>age = 5, wealth = 3\<rparr>, \<lparr>age = 0, wealth = 0\<rparr>]]] 0 0 0 False 10 =
                 Inr (h4, ref4) \<and> grid_inv (h4 ! ref4)) \<and>
   (\<exists>g5. resizeGrid [[\<lparr>age = 5, wealth = 3\<rparr>, \<lparr>age = 0, wealth = 0\<rparr>]] 3 2 = Inr g5 \<and>
          grid_inv g5)"
proof -
  let ?g = "[[\<lparr>age = 5, wealth = 3\<rparr>, \<lparr>age = 0, wealth = 0\<rparr>]]"
  let ?rnd = "\<lambda>calls::nat. (if even calls then 4/5 else 1/5 :: real, Suc calls)"
  note kept = cell_invariant_kept [where width = 2 and height = 1 and density = "1/2"
      and startingWealth = 10 and randomFn = ?rnd and s = 0 and g = ?g
      and wealthRules = defaultWealthRules and h = "[?g]" and grid = 0 and row = 0 and col = 0
      and v = False and newWidth = 3 and newHeight = 2]
  have ok: "array_length_ok 1" "array_length_ok 2" "array_length_ok 3"
    by (simp_all add: array_length_ok_def)
  have wf: "is_grid ?g" by (simp add: is_grid_def grid_width_def array_length_ok_def)
  have inv: "grid_inv ?g" by (simp add: grid_inv_def cell_inv_def)
  then have hinv: "grid_inv ([?g] ! 0)" by simp
  obtain g0 where e0: "createEmptyGrid 2 1 = Inr g0"
    using createEmptyGrid_ok [OF ok(2) ok(1)] by blast
  obtain g1 s1 where e1: "randomizeGrid 2 1 (1/2) 10 ?rnd 0 = Inr (g1, s1)"
    using ok by (simp add: randomizeGrid_def random_rows_draws)
  obtain g2 where e2: "computeNextGeneration ?g defaultWealthRules 10 = Inr g2"
    using computeNextGeneration_next_grid [OF wf] by blast
  obtain h3 ref3 where e3: "toggleCell [?g] 0 0 0 10 = Inr (h3, ref3)"
    by (simp add: toggleCell_def copy_grid_id js_index_def alloc_def)
  obtain h4 ref4 where e4: "setCell [?g] 0 0 0 False 10 = Inr (h4, ref4)"
    by (simp add: setCell_def copy_grid_id js_index_def alloc_def)
  obtain g5 where e5: "resizeGrid ?g 3 2 = Inr g5"
    using resizeGrid_closed_form [OF wf ok(3) ok(2)] by blast
  from kept e0 have "grid_inv g0" by blast
  with e0 have c0: "\<exists>g0. createEmptyGrid 2 1 = Inr g0 \<and> grid_inv g0" by blast
  from kept e1 have "grid_inv g1" by blast
  with e1 have c1: "\<exists>g1 s1. randomizeGrid 2 1 (1/2) 10 ?rnd 0 = Inr (g1, s1) \<and> grid_inv g1"
    by blast
  from kept inv e2 have "grid_inv g2" by blast
  with e2 have c2: "\<exists>g2. computeNextGeneration ?g defaultWealthRules 10 = Inr g2 \<and> grid_inv g2"
    by blast
  from kept hinv e3 have "grid_inv (h3 ! ref3)" by blast
  with e3 have c3: "\<exists>h3 ref3. toggleCell [?g] 0 0 0 10 = Inr (h3, ref3) \<and> grid_inv (h3 ! ref3)"
    by blast
  from kept hinv e4 have "grid_inv (h4 ! ref4)" by blast
  with e4 have c4: "\<exists>h4 ref4. setCell [?g] 0 0 0 False 10 = Inr (h4, ref4) \<and> grid_inv (h4 ! ref4)"
    by blast
  from kept inv e5 have "grid_inv g5" by blast
  with e5 have c5: "\<exists>g5. resizeGrid ?g 3 2 = Inr g5 \<and> grid_inv g5" by blast
  from inv c0 c1 c2 c3 c4 c5 show ?thesis by blast
qed

end
